theory Spec2Isabelle
  imports Complex_Main
begin

section \<open>Shared data: byte buffers and errors\<close>

text \<open>
  A \<^verbatim>\<open>Uint8Array\<close> is modelled as a \<^typ>\<open>string\<close>: an Isabelle character is one byte,
  so a literal such as \<open>''Path''\<close> is the ASCII byte run of that word and \<open>CHR 0x0A\<close> is the
  byte \<^verbatim>\<open>0x0a\<close>. Every \<^verbatim>\<open>throw\<close> of the source is a value of the type \<open>error\<close>.
\<close>

type_synonym bytes = string

datatype error =
    ByteLengthError      \<comment> \<open>\<^verbatim>\<open>Error('byte_length must be greater than 0')\<close>\<close>
  | ChunkingError        \<comment> \<open>\<^verbatim>\<open>Error('Maximum byte length is too small or invalid text structure ...')\<close>\<close>
  | UnknownResponse
  | UnexpectedResponse
  | NoAudioReceived
  | WebSocketError string
  | JsonError            \<comment> \<open>\<^verbatim>\<open>SyntaxError\<close> or \<^verbatim>\<open>TypeError\<close> raised while reading a JSON body\<close>
  | StreamCalledTwice    \<comment> \<open>\<^verbatim>\<open>Error('stream can only be called once.')\<close>\<close>

section \<open>utils.ts: splitting text by byte length\<close>

subsection \<open>TextEncoder and TextDecoder\<close>

text \<open>
  The input text is a list of Unicode code points (a surrogate pair of the JavaScript string
  counts as the one code point it denotes). \<^verbatim>\<open>new TextEncoder().encode\<close> writes each code point
  in UTF-8; a lone surrogate is written as U+FFFD.
\<close>

definition utf8_of_codepoint :: "nat \<Rightarrow> bytes" where
  "utf8_of_codepoint c =
     (if c < 0x80 then [char_of c]
      else if c < 0x800 then [char_of (0xC0 + c div 0x40), char_of (0x80 + c mod 0x40)]
      else if 0xD800 \<le> c \<and> c < 0xE000 then [CHR 0xEF, CHR 0xBF, CHR 0xBD]
      else if c < 0x10000 then
        [char_of (0xE0 + c div 0x1000), char_of (0x80 + c div 0x40 mod 0x40),
         char_of (0x80 + c mod 0x40)]
      else
        [char_of (0xF0 + c div 0x40000), char_of (0x80 + c div 0x1000 mod 0x40),
         char_of (0x80 + c div 0x40 mod 0x40), char_of (0x80 + c mod 0x40)])"

definition TextEncoder_encode :: "nat list \<Rightarrow> bytes" where
  "TextEncoder_encode text = concat (map utf8_of_codepoint text)"

text \<open>
  \<^verbatim>\<open>new TextDecoder()\<close> is built without the \<^verbatim>\<open>fatal\<close> option, so \<^verbatim>\<open>decode\<close> replaces
  malformed input by U+FFFD and never throws.
\<close>

definition TextDecoder_decode_throws :: "bytes \<Rightarrow> bool" where
  "TextDecoder_decode_throws segment = False"

text \<open>
  What \<^verbatim>\<open>decode\<close> returns is the text the UTF-8 decoder of the Encoding Standard reads. In
  its start state a byte below \<^verbatim>\<open>0x80\<close> is a code point, a byte from \<^verbatim>\<open>0xC2\<close> to \<^verbatim>\<open>0xF4\<close>
  opens a sequence of one, two or three continuation bytes, and any other byte is read as
  U+FFFD. A continuation byte lies between the lower and the upper boundary, \<^verbatim>\<open>0x80\<close> and
  \<^verbatim>\<open>0xBF\<close>, which the lead bytes \<^verbatim>\<open>0xE0\<close>, \<^verbatim>\<open>0xED\<close>, \<^verbatim>\<open>0xF0\<close> and \<^verbatim>\<open>0xF4\<close> narrow for the
  first continuation byte. A byte outside the boundaries, or the end of the input, ends
  the sequence as U+FFFD, and the byte is read again in the start state.

  \<open>utf8_continuation needed lower upper codePoint bs\<close> reads the \<open>needed\<close> continuation bytes
  from \<open>bs\<close>: it gives the code point, or \<open>None\<close> for U+FFFD, and the bytes still to read.
\<close>

fun utf8_continuation :: "nat \<Rightarrow> nat \<Rightarrow> nat \<Rightarrow> nat \<Rightarrow> bytes \<Rightarrow> nat option \<times> bytes" where
  "utf8_continuation 0 lower upper codePoint bs = (Some codePoint, bs)"
| "utf8_continuation (Suc needed) lower upper codePoint [] = (None, [])"
| "utf8_continuation (Suc needed) lower upper codePoint (b # bs) =
     (if lower \<le> of_char b \<and> of_char b \<le> upper
      then utf8_continuation needed 0x80 0xBF (codePoint * 0x40 + of_char b mod 0x40) bs
      else (None, b # bs))"

text \<open>The sequence a lead byte \<open>v\<close> from \<^verbatim>\<open>0xC2\<close> to \<^verbatim>\<open>0xF4\<close> opens.\<close>

definition utf8_sequence :: "nat \<Rightarrow> bytes \<Rightarrow> nat option \<times> bytes" where
  "utf8_sequence v bs =
     (if v < 0xE0 then utf8_continuation 1 0x80 0xBF (v mod 0x20) bs
      else if v < 0xF0 then
        utf8_continuation 2 (if v = 0xE0 then 0xA0 else 0x80) (if v = 0xED then 0x9F else 0xBF)
          (v mod 0x10) bs
      else
        utf8_continuation 3 (if v = 0xF0 then 0x90 else 0x80) (if v = 0xF4 then 0x8F else 0xBF)
          (v mod 0x08) bs)"

lemma length_utf8_continuation:
  "length (snd (utf8_continuation needed lower upper codePoint bs)) \<le> length bs"
  by (induction needed lower upper codePoint bs rule: utf8_continuation.induct) auto

lemma length_utf8_sequence: "length (snd (utf8_sequence v bs)) \<le> length bs"
  by (simp add: utf8_sequence_def length_utf8_continuation)

function utf8_decode :: "bytes \<Rightarrow> nat list" where
  "utf8_decode [] = []"
| "utf8_decode (b # bs) =
     (if of_char b < (0x80 :: nat) then of_char b # utf8_decode bs
      else if of_char b < (0xC2 :: nat) \<or> (0xF4 :: nat) < of_char b then 0xFFFD # utf8_decode bs
      else
        (case fst (utf8_sequence (of_char b) bs) of
           Some codePoint \<Rightarrow> codePoint
         | None \<Rightarrow> 0xFFFD) # utf8_decode (snd (utf8_sequence (of_char b) bs)))"
  by pat_completeness auto
termination
  by (relation "measure length") (simp_all add: length_utf8_sequence le_imp_less_Suc)

declare utf8_decode.simps(2) [simp del]

text \<open>
  \<^verbatim>\<open>new TextDecoder().decode(input)\<close>: the decoder is built without \<^verbatim>\<open>ignoreBOM\<close>, so a byte
  order mark \<^verbatim>\<open>EF BB BF\<close> at the start of the input is dropped before the rest is decoded.
  The string it returns holds no lone surrogate; it is written here in UTF-8, which
  determines it, so that an ASCII word of the source is the literal of that word.
\<close>

definition TextDecoder_decode :: "bytes \<Rightarrow> string" where
  "TextDecoder_decode input =
     TextEncoder_encode
       (utf8_decode
          (if take 3 input = [CHR 0xEF, CHR 0xBB, CHR 0xBF] then drop 3 input else input))"

subsection \<open>Split points\<close>

text \<open>
  \<^verbatim>\<open>for (let i = n - 1; i >= 0; i--) { if (text[i] === b) { found = i; break; } }\<close>, with \<open>-1\<close>
  when the loop finds nothing. An index past the end reads \<^verbatim>\<open>undefined\<close>, which equals no byte.
\<close>

fun lastIndexBelow :: "bytes \<Rightarrow> char \<Rightarrow> nat \<Rightarrow> int" where
  "lastIndexBelow text b 0 = - 1"
| "lastIndexBelow text b (Suc i) =
     (if i < length text \<and> text ! i = b then int i else lastIndexBelow text b i)"

definition findLastNewlineOrSpaceWithinLimit :: "bytes \<Rightarrow> int \<Rightarrow> int" where
  "findLastNewlineOrSpaceWithinLimit text limit =
     (let splitAt = lastIndexBelow text (CHR 0x0A) (nat limit)
      in if splitAt < 0 then lastIndexBelow text (CHR 0x20) (nat limit) else splitAt)"

fun findSafeUtf8SplitPoint_loop :: "bytes \<Rightarrow> nat \<Rightarrow> nat" where
  "findSafeUtf8SplitPoint_loop textSegment 0 = 0"
| "findSafeUtf8SplitPoint_loop textSegment (Suc n) =
     (if \<not> TextDecoder_decode_throws (take (Suc n) textSegment) then Suc n
      else findSafeUtf8SplitPoint_loop textSegment n)"

definition findSafeUtf8SplitPoint :: "bytes \<Rightarrow> int" where
  "findSafeUtf8SplitPoint textSegment =
     int (findSafeUtf8SplitPoint_loop textSegment (length textSegment))"

text \<open>\<^verbatim>\<open>data.slice(from, to)\<close> for indices that are not negative.\<close>

definition slice :: "bytes \<Rightarrow> nat \<Rightarrow> nat \<Rightarrow> bytes" where
  "slice data from to = take (to - from) (drop from data)"

lemma lastIndexBelow_less: "lastIndexBelow text b n < int n"
  by (induction n) auto

lemma lastIndexBelow_ge: "- 1 \<le> lastIndexBelow text b n"
  by (induction n) auto

function adjustSplitPointForXmlEntity :: "bytes \<Rightarrow> int \<Rightarrow> int" where
  "adjustSplitPointForXmlEntity text adjustedSplitAt =
     (if adjustedSplitAt > 0 then
        (let ampersandIndex = lastIndexBelow text (CHR 0x26) (nat adjustedSplitAt) in
         if ampersandIndex = - 1 then adjustedSplitAt
         else if CHR 0x3B \<in> set (slice text (nat ampersandIndex + 1) (nat adjustedSplitAt))
         then adjustedSplitAt
         else adjustSplitPointForXmlEntity text ampersandIndex)
      else adjustedSplitAt)"
  by pat_completeness auto
termination
proof (relation "measure (\<lambda>(text, a). nat a)")
  show "wf (measure (\<lambda>(text, a). nat a))"
    by simp
next
  fix buf :: bytes and adjustedSplitAt x :: int
  assume "0 < adjustedSplitAt" and "x = lastIndexBelow buf (CHR 0x26) (nat adjustedSplitAt)"
  then have "x < adjustedSplitAt"
    using lastIndexBelow_less [of buf "CHR 0x26" "nat adjustedSplitAt"] by simp
  with \<open>0 < adjustedSplitAt\<close>
  show "((buf, x), (buf, adjustedSplitAt)) \<in> measure (\<lambda>(text, a). nat a)"
    by simp
qed

declare adjustSplitPointForXmlEntity.simps [simp del]

subsection \<open>Trimming and the generator\<close>

definition isTrimByte :: "char \<Rightarrow> bool" where
  "isTrimByte c = (c = CHR 0x20 \<or> c = CHR 0x09 \<or> c = CHR 0x0A \<or> c = CHR 0x0D)"

text \<open>
  \<^verbatim>\<open>trimWhitespace\<close> moves \<^verbatim>\<open>start\<close> forward over the four whitespace bytes, then \<^verbatim>\<open>end\<close>
  backward down to \<^verbatim>\<open>start\<close>, and returns the bytes between them.
\<close>

definition trimWhitespace :: "bytes \<Rightarrow> bytes" where
  "trimWhitespace data = rev (dropWhile isTrimByte (rev (dropWhile isTrimByte data)))"

text \<open>
  The generator \<^verbatim>\<open>splitTextByByteLength\<close>, run to its end: the chunks it yields, in order, and
  the error that stopped it, if any. The \<^verbatim>\<open>while\<close> loop is \<open>splitLoop\<close>; the generator enters
  it only with \<open>0 < byteLength\<close>, and the loop's test repeats that guard so that the
  recursion is well founded for every argument.
\<close>

function splitLoop :: "bytes \<Rightarrow> int \<Rightarrow> bytes list \<times> error option" where
  "splitLoop data byteLength =
     (if 0 < byteLength \<and> byteLength < int (length data) then
        (let splitAt0 = findLastNewlineOrSpaceWithinLimit data byteLength;
             splitAt1 = (if splitAt0 < 0 then findSafeUtf8SplitPoint data else splitAt0);
             splitAt = adjustSplitPointForXmlEntity data splitAt1
         in if splitAt < 0 then ([], Some ChunkingError)
            else
              (let trimmedChunk = trimWhitespace (slice data 0 (nat splitAt));
                   later = splitLoop (drop (if splitAt > 0 then nat splitAt else 1) data) byteLength
               in ((if length trimmedChunk > 0 then [trimmedChunk] else []) @ fst later,
                   snd later)))
      else
        (let remainingChunk = trimWhitespace data
         in (if length remainingChunk > 0 then [remainingChunk] else [], None)))"
  by pat_completeness auto
termination
  by (relation "measure (\<lambda>(data, byteLength). length data)") auto

declare splitLoop.simps [simp del]

definition splitTextByByteLength :: "nat list \<Rightarrow> int \<Rightarrow> bytes list \<times> error option" where
  "splitTextByByteLength text byteLength =
     (if byteLength \<le> 0 then ([], Some ByteLengthError)
      else splitLoop (TextEncoder_encode text) byteLength)"

subsection \<open>Escaping\<close>

text \<open>
  \<^verbatim>\<open>str.replace(/pat/g, rep)\<close> for a pattern that is a literal, non-empty string and a
  replacement without \<^verbatim>\<open>$\<close>: every occurrence, left to right, without overlap.
\<close>

function replaceAllLiteral :: "string \<Rightarrow> string \<Rightarrow> string \<Rightarrow> string" where
  "replaceAllLiteral pat rep [] = []"
| "replaceAllLiteral pat rep (c # cs) =
     (if pat \<noteq> [] \<and> take (length pat) (c # cs) = pat
      then rep @ replaceAllLiteral pat rep (drop (length pat) (c # cs))
      else c # replaceAllLiteral pat rep cs)"
  by pat_completeness auto
termination
  by (relation "measure (\<lambda>(pat, rep, s). length s)") auto

definition unescapeXml :: "string \<Rightarrow> string" where
  "unescapeXml str =
     replaceAllLiteral ''&amp;'' ''&''
       (replaceAllLiteral ''&lt;'' ''<''
         (replaceAllLiteral ''&gt;'' ''>''
           (replaceAllLiteral ''&quot;'' [CHR 0x22]
             (replaceAllLiteral ''&apos;'' [CHR 0x27] str))))"

subsection \<open>Frame headers\<close>

text \<open>\<^verbatim>\<open>headerText.split('\r\n')\<close>.\<close>

fun split_crlf :: "string \<Rightarrow> string list" where
  "split_crlf [] = [[]]"
| "split_crlf [c] = [[c]]"
| "split_crlf (c # d # cs) =
     (if c = CHR 0x0D \<and> d = CHR 0x0A then [] # split_crlf cs
      else (case split_crlf (d # cs) of
              [] \<Rightarrow> [[c]]
            | l # ls \<Rightarrow> (c # l) # ls))"

text \<open>
  One turn of the loop over the header lines: a line with a colon sets
  \<^verbatim>\<open>headers[key] = value\<close>, split at its first colon; a line without one is skipped.
  \<^verbatim>\<open>headers\<close> is an object literal, so the assignment with the key \<^verbatim>\<open>__proto__\<close> calls the
  setter of \<^verbatim>\<open>Object.prototype\<close>, which ignores a string and sets no property.
\<close>

definition addHeaderLine :: "(string \<rightharpoonup> string) \<Rightarrow> string \<Rightarrow> (string \<rightharpoonup> string)" where
  "addHeaderLine hs line =
     (if CHR 0x3A \<in> set line \<and> takeWhile (\<lambda>c. c \<noteq> CHR 0x3A) line \<noteq> ''__proto__''
      then hs(takeWhile (\<lambda>c. c \<noteq> CHR 0x3A) line \<mapsto> tl (dropWhile (\<lambda>c. c \<noteq> CHR 0x3A) line))
      else hs)"

text \<open>
  \<^verbatim>\<open>getHeadersAndData\<close> returns the pair \<^verbatim>\<open>{ headers, data }\<close>: the header lines of the decoded
  text of \<^verbatim>\<open>data.slice(0, headerLength)\<close>, and \<^verbatim>\<open>data.slice(headerLength + 2)\<close>. The
  headers are the object's own properties; the handlers read \<^verbatim>\<open>Path\<close> and
  \<^verbatim>\<open>Content-Type\<close>, which the object inherits from no prototype.
\<close>

definition getHeadersAndData :: "bytes \<Rightarrow> nat \<Rightarrow> (string \<rightharpoonup> string) \<times> bytes" where
  "getHeadersAndData buf headerLength =
     (let headerText = TextDecoder_decode (take headerLength buf)
      in (foldl addHeaderLine Map.empty (split_crlf headerText),
          drop (headerLength + 2) buf))"

section \<open>communicate.ts: the protocol session and the stream\<close>

record CommunicateState =
  partialText :: bytes
  offsetCompensation :: int
  lastDurationOffset :: int
  streamWasCalled :: bool

text \<open>The state the constructor stores.\<close>

definition initialState :: CommunicateState where
  "initialState =
     \<lparr>partialText = [], offsetCompensation = 0, lastDurationOffset = 0,
      streamWasCalled = False\<rparr>"

datatype BoundaryType = WordBoundary | SentenceBoundary

datatype TTSChunk =
    TTSChunkAudio bytes
  | TTSChunkMetadata BoundaryType int int string
      \<comment> \<open>type, offset, duration, text\<close>

fun chunk_offset :: "TTSChunk \<Rightarrow> int" where
  "chunk_offset (TTSChunkMetadata ty off dur txt) = off"
| "chunk_offset (TTSChunkAudio d) = 0"

fun chunk_duration :: "TTSChunk \<Rightarrow> int" where
  "chunk_duration (TTSChunkMetadata ty off dur txt) = dur"
| "chunk_duration (TTSChunkAudio d) = 0"

text \<open>
  One element of the \<^verbatim>\<open>Metadata\<close> array of an \<^verbatim>\<open>audio.metadata\<close> body:
  \<^verbatim>\<open>{Type, Data: {Offset, Duration, text: {Text}}}\<close>. \<^verbatim>\<open>JSON.parse\<close> is the platform's; the
  session takes it as the function \<open>json\<close>, which gives the \<^verbatim>\<open>Metadata\<close> array of a body, or
  \<open>None\<close> where parsing the body or reading a field throws.
\<close>

record metaObj =
  Type :: string
  Offset :: int
  Duration :: int
  Text :: string

type_synonym json_reader = "bytes \<Rightarrow> metaObj list option"

text \<open>The \<^verbatim>\<open>for (const metaObj of json.Metadata)\<close> loop of \<^verbatim>\<open>parseMetadata\<close>.\<close>

fun parseMetadataLoop :: "CommunicateState \<Rightarrow> metaObj list \<Rightarrow> error + TTSChunk" where
  "parseMetadataLoop st [] = Inl UnexpectedResponse"
| "parseMetadataLoop st (m # ms) =
     (if Type m = ''WordBoundary'' \<or> Type m = ''SentenceBoundary'' then
        Inr (TTSChunkMetadata
               (if Type m = ''WordBoundary'' then WordBoundary else SentenceBoundary)
               (Offset m + offsetCompensation st) (Duration m) (unescapeXml (Text m)))
      else if Type m = ''SessionEnd'' then parseMetadataLoop st ms
      else Inl UnknownResponse)"

definition parseMetadata :: "json_reader \<Rightarrow> CommunicateState \<Rightarrow> bytes \<Rightarrow> error + TTSChunk" where
  "parseMetadata json st body =
     (case json body of
        None \<Rightarrow> Inl JsonError
      | Some ms \<Rightarrow> parseMetadataLoop st ms)"

subsection \<open>One socket session\<close>

text \<open>
  What \<^verbatim>\<open>streamInternal\<close> keeps while its socket is open: the instance's state, the
  message queue, the flag \<^verbatim>\<open>audioWasReceived\<close> and \<^verbatim>\<open>messagePromise\<close>. A promise settles
  once: \<^verbatim>\<open>resolvePromise\<close> and \<^verbatim>\<open>rejectPromise\<close> act only while it is pending.
\<close>

datatype promise = Pending | Resolved | Rejected error

record session =
  state :: CommunicateState
  messageQueue :: "TTSChunk list"
  audioWasReceived :: bool
  messagePromise :: promise

definition newSession :: "CommunicateState \<Rightarrow> session" where
  "newSession st =
     \<lparr>state = st, messageQueue = [], audioWasReceived = False, messagePromise = Pending\<rparr>"

definition rejectPromise :: "error \<Rightarrow> session \<Rightarrow> session" where
  "rejectPromise e s =
     (if messagePromise s = Pending then s\<lparr>messagePromise := Rejected e\<rparr> else s)"

definition resolvePromise :: "session \<Rightarrow> session" where
  "resolvePromise s =
     (if messagePromise s = Pending then s\<lparr>messagePromise := Resolved\<rparr> else s)"

text \<open>
  \<^verbatim>\<open>encodedData.findIndex(...)\<close>: the first index at which the four bytes
  \<^verbatim>\<open>\r\n\r\n\<close> stand.
\<close>

fun findHeaderEnd :: "bytes \<Rightarrow> nat option" where
  "findHeaderEnd [] = None"
| "findHeaderEnd (c # cs) =
     (if take 4 (c # cs) = [CHR 0x0D, CHR 0x0A, CHR 0x0D, CHR 0x0A] then Some 0
      else map_option Suc (findHeaderEnd cs))"

text \<open>
  The text branch of \<^verbatim>\<open>ws.onmessage\<close>. A text frame is given by its UTF-8 bytes, which is
  what \<^verbatim>\<open>new TextEncoder().encode(event.data)\<close> returns. An error thrown by
  \<^verbatim>\<open>parseMetadata\<close> is caught by the handler and rejects the promise.
\<close>

definition onTextMessage :: "json_reader \<Rightarrow> session \<Rightarrow> bytes \<Rightarrow> session" where
  "onTextMessage json s encodedData =
     (case findHeaderEnd encodedData of
        None \<Rightarrow> rejectPromise UnexpectedResponse s
      | Some headerEnd \<Rightarrow>
          (let (hdrs, body) = getHeadersAndData encodedData headerEnd;
               path = hdrs ''Path''
           in if path = Some ''audio.metadata'' then
                (case parseMetadata json (state s) body of
                   Inl e \<Rightarrow> rejectPromise e s
                 | Inr parsedMetadata \<Rightarrow>
                     s\<lparr>messageQueue := messageQueue s @ [parsedMetadata],
                       state := (state s)\<lparr>lastDurationOffset :=
                         chunk_offset parsedMetadata + chunk_duration parsedMetadata\<rparr>\<rparr>)
              else if path = Some ''turn.end'' then
                resolvePromise
                  (s\<lparr>state := (state s)\<lparr>offsetCompensation :=
                     lastDurationOffset (state s) + 8750000\<rparr>\<rparr>)
              else if path \<noteq> Some ''response'' \<and> path \<noteq> Some ''turn.start'' then
                rejectPromise UnknownResponse s
              else s))"

text \<open>The binary branch of \<^verbatim>\<open>ws.onmessage\<close>, with its early returns in order.\<close>

definition onBinaryMessage :: "session \<Rightarrow> bytes \<Rightarrow> session" where
  "onBinaryMessage s dataArray =
     (if length dataArray < 2 then rejectPromise UnexpectedResponse s
      else
        (let headerLength = of_char (dataArray ! 0) * 256 + of_char (dataArray ! 1)
         in if headerLength > length dataArray then rejectPromise UnexpectedResponse s
            else
              (let (hdrs, audioData) = getHeadersAndData dataArray headerLength;
                   contentType = hdrs ''Content-Type''
               in if hdrs ''Path'' \<noteq> Some ''audio'' then rejectPromise UnexpectedResponse s
                  else if contentType \<noteq> Some ''audio/mpeg'' \<and> contentType \<noteq> None then
                    rejectPromise UnexpectedResponse s
                  else if contentType = None then
                    (if length audioData = 0 then s
                     else rejectPromise UnexpectedResponse s)
                  else if length audioData = 0 then rejectPromise UnexpectedResponse s
                  else s\<lparr>audioWasReceived := True,
                         messageQueue := messageQueue s @ [TTSChunkAudio audioData]\<rparr>)))"

text \<open>What the socket delivers after it opened: a text frame, a binary frame or an error event.\<close>

datatype socket_event = TextMessage bytes | BinaryMessage bytes | ErrorEvent string

fun onEvent :: "json_reader \<Rightarrow> session \<Rightarrow> socket_event \<Rightarrow> session" where
  "onEvent json s (TextMessage encodedData) = onTextMessage json s encodedData"
| "onEvent json s (BinaryMessage dataArray) = onBinaryMessage s dataArray"
| "onEvent json s (ErrorEvent msg) = rejectPromise (WebSocketError msg) s"

subsection \<open>streamInternal and stream\<close>

text \<open>
  The network as the stream sees it: each socket either fails to open (the ready promise
  rejects with a \<^verbatim>\<open>WebSocketError\<close>) or opens and delivers events, those the handlers see
  before the generator finishes. Network actions are recorded in a log.

  The generator hands the queued chunks to its consumer one at a time and waits on the
  promise only when the queue is empty. When the promise resolves, the chunks still queued
  are yielded before the generator returns. When it rejects, the \<^verbatim>\<open>await\<close> throws at once:
  the chunks queued during that wait are never yielded. How many chunks the consumer had
  been handed by then is a matter of timing; the connection carries that number with its
  events.
\<close>

datatype connection = ConnectionFails string | Delivers "socket_event list" nat

datatype io = OpenWebSocket | SendSpeechConfig | SendSsml bytes | CloseWebSocket

datatype outcome = Completed | Throws error | NeverSettles

type_synonym run = "outcome \<times> TTSChunk list \<times> CommunicateState \<times> io list"

definition streamInternal :: "json_reader \<Rightarrow> CommunicateState \<Rightarrow> connection \<Rightarrow> run" where
  "streamInternal json st conn =
     (case conn of
        ConnectionFails msg \<Rightarrow> (Throws (WebSocketError msg), [], st, [OpenWebSocket])
      | Delivers events taken \<Rightarrow>
          (let s = foldl (onEvent json) (newSession st) events;
               sent = [OpenWebSocket, SendSpeechConfig, SendSsml (partialText st)]
           in case messagePromise s of
                Pending \<Rightarrow> (NeverSettles, messageQueue s, state s, sent)
              | Rejected e \<Rightarrow> (Throws e, take taken (messageQueue s), state s, sent)
              | Resolved \<Rightarrow>
                  (if audioWasReceived s then Completed else Throws NoAudioReceived,
                   messageQueue s, state s, sent @ [CloseWebSocket])))"



text \<open>\<^verbatim>\<open>message.includes(pat)\<close>.\<close>

fun string_includes :: "string \<Rightarrow> string \<Rightarrow> bool" where
  "string_includes [] pat = (pat = [])"
| "string_includes (c # cs) pat =
     (take (length pat) (c # cs) = pat \<or> string_includes cs pat)"

text \<open>
  The \<^verbatim>\<open>for (const partialText of this.texts)\<close> loop of \<^verbatim>\<open>stream\<close>. \<open>net k\<close> is the
  \<open>k\<close>-th socket the instance opens. A \<^verbatim>\<open>WebSocketError\<close> whose message contains
  \<^verbatim>\<open>403\<close> is retried once; the retry's own failure is not caught.
\<close>

fun streamLoop ::
  "json_reader \<Rightarrow> (nat \<Rightarrow> connection) \<Rightarrow> nat \<Rightarrow> CommunicateState \<Rightarrow> bytes list \<Rightarrow> run" where
  "streamLoop json net k st [] = (Completed, [], st, [])"
| "streamLoop json net k st (chunk # texts) =
     (let (r1, ys1, st1, io1) = streamInternal json (st\<lparr>partialText := chunk\<rparr>) (net k)
      in case r1 of
           Completed \<Rightarrow>
             (let (r, ys, st', io') = streamLoop json net (k + 1) st1 texts
              in (r, ys1 @ ys, st', io1 @ io'))
         | NeverSettles \<Rightarrow> (NeverSettles, ys1, st1, io1)
         | Throws e \<Rightarrow>
             (case e of
                WebSocketError msg \<Rightarrow>
                  (if string_includes msg ''403'' then
                     (let (r2, ys2, st2, io2) = streamInternal json st1 (net (k + 1))
                      in case r2 of
                           Completed \<Rightarrow>
                             (let (r, ys, st', io') = streamLoop json net (k + 2) st2 texts
                              in (r, ys1 @ ys2 @ ys, st', io1 @ io2 @ io'))
                         | _ \<Rightarrow> (r2, ys1 @ ys2, st2, io1 @ io2))
                   else (Throws e, ys1, st1, io1))
              | _ \<Rightarrow> (Throws e, ys1, st1, io1)))"

text \<open>
  The body of the generator \<^verbatim>\<open>stream\<close>, run from its first \<^verbatim>\<open>next()\<close>: the instance is its
  state and the chunks \<^verbatim>\<open>this.texts\<close> still has to yield.
\<close>

definition stream ::
  "json_reader \<Rightarrow> (nat \<Rightarrow> connection) \<Rightarrow> CommunicateState \<Rightarrow> bytes list \<Rightarrow> run" where
  "stream json net st texts =
     (if streamWasCalled st then (Throws StreamCalledTwice, [], st, [])
      else streamLoop json net 0 (st\<lparr>streamWasCalled := True\<rparr>) texts)"

subsection \<open>The states of a stream\<close>

text \<open>
  The values the instance's state takes while a stream runs. A stream is a list of socket
  sessions, one per chunk or per retry of a chunk: \<^verbatim>\<open>stream\<close> stores the chunk in
  \<^verbatim>\<open>partialText\<close>, and the session's handlers then see the events in order. The state is
  recorded when the session starts and after every event.
\<close>

fun sessionStates :: "json_reader \<Rightarrow> session \<Rightarrow> socket_event list \<Rightarrow> CommunicateState list" where
  "sessionStates json s [] = []"
| "sessionStates json s (e # es) =
     (let s' = onEvent json s e in state s' # sessionStates json s' es)"

fun streamStates ::
  "json_reader \<Rightarrow> CommunicateState \<Rightarrow> (bytes \<times> socket_event list) list \<Rightarrow> CommunicateState list"
  where
  "streamStates json st [] = []"
| "streamStates json st ((chunk, events) # rest) =
     (let st0 = st\<lparr>partialText := chunk\<rparr>;
          visited = st0 # sessionStates json (newSession st0) events
      in visited @ streamStates json (last visited) rest)"

text \<open>What the claims about the session say of a frame and of the service.\<close>

definition isBoundary :: "metaObj \<Rightarrow> bool" where
  "isBoundary m = (Type m = ''WordBoundary'' \<or> Type m = ''SentenceBoundary'')"

definition textPath :: "bytes \<Rightarrow> string option" where
  "textPath encodedData =
     (case findHeaderEnd encodedData of
        None \<Rightarrow> None
      | Some headerEnd \<Rightarrow> fst (getHeadersAndData encodedData headerEnd) ''Path'')"

definition textBody :: "bytes \<Rightarrow> bytes" where
  "textBody encodedData =
     (case findHeaderEnd encodedData of
        None \<Rightarrow> []
      | Some headerEnd \<Rightarrow> snd (getHeadersAndData encodedData headerEnd))"




definition reportsNonNegative :: "json_reader \<Rightarrow> bool" where
  "reportsNonNegative json =
     (\<forall>body ms. json body = Some ms \<longrightarrow> (\<forall>m \<in> set ms. 0 \<le> Offset m \<and> 0 \<le> Duration m))"

text \<open>
  The invariant behind the monotonicity of \<^verbatim>\<open>offsetCompensation\<close>: it never runs more than
  the padding ahead of \<^verbatim>\<open>lastDurationOffset\<close>.
\<close>

definition offsetInv :: "CommunicateState \<Rightarrow> bool" where
  "offsetInv st = (offsetCompensation st \<le> lastDurationOffset st + 8750000)"

subsection \<open>Example frames and readers\<close>




definition metadata_frame :: bytes where
  "metadata_frame = ''Path:audio.metadata'' @ [CHR 0x0D, CHR 0x0A, CHR 0x0D, CHR 0x0A] @ ''{}''"

definition turn_end_frame :: bytes where
  "turn_end_frame = ''Path:turn.end'' @ [CHR 0x0D, CHR 0x0A, CHR 0x0D, CHR 0x0A]"

definition refusing_net :: "nat \<Rightarrow> connection" where
  "refusing_net k = ConnectionFails ''WebSocket closed with code 1006''"

definition word_reader :: json_reader where
  "word_reader body =
     Some [\<lparr>Type = ''WordBoundary'', Offset = 1000000, Duration = 500000, Text = ''Hi''\<rparr>]"

definition session_end_reader :: json_reader where
  "session_end_reader body =
     Some [\<lparr>Type = ''SessionEnd'', Offset = 0, Duration = 0, Text = []\<rparr>]"

definition viseme_reader :: json_reader where
  "viseme_reader body =
     Some [\<lparr>Type = ''SessionEnd'', Offset = 0, Duration = 0, Text = []\<rparr>,
           \<lparr>Type = ''Viseme'', Offset = 0, Duration = 0, Text = []\<rparr>,
           \<lparr>Type = ''WordBoundary'', Offset = 0, Duration = 0, Text = []\<rparr>]"

section \<open>Numbers as decimal text\<close>

text \<open>
  \<^verbatim>\<open>String(n)\<close>, \<^verbatim>\<open>n.toString()\<close> and \<^verbatim>\<open>`${n}`\<close> for a number \<open>n\<close> that is whole and whose
  decimal digits JavaScript writes in full: one below \<open>2\<^sup>5\<^sup>3\<close> in size, or a larger double
  below \<open>10\<^sup>2\<^sup>1\<close> that has at most 15 significant decimal digits.
\<close>

definition digit_char :: "nat \<Rightarrow> char" where
  "digit_char d = char_of (48 + d)"

function digits_of_nat :: "nat \<Rightarrow> string" where
  "digits_of_nat n =
     (if n < 10 then [digit_char n] else digits_of_nat (n div 10) @ [digit_char (n mod 10)])"
  by pat_completeness auto
termination
  by (relation "measure id") auto

declare digits_of_nat.simps [simp del]

definition Number_toString :: "int \<Rightarrow> string" where
  "Number_toString n =
     (if n < 0 then CHR ''-'' # digits_of_nat (nat (- n)) else digits_of_nat (nat n))"

text \<open>\<^verbatim>\<open>str.padStart(width, '0')\<close>.\<close>

definition padStart :: "nat \<Rightarrow> string \<Rightarrow> string" where
  "padStart width str = replicate (width - length str) (CHR ''0'') @ str"

text \<open>
  Reading decimal text back, and fields of a fixed number of digits: the vocabulary in
  which the timestamp format is stated.
\<close>

definition decimal_value :: "string \<Rightarrow> nat" where
  "decimal_value str = foldl (\<lambda>acc c. 10 * acc + (of_char c - 48)) 0 str"

definition two_digits :: "nat \<Rightarrow> string" where
  "two_digits n = [digit_char (n div 10), digit_char (n mod 10)]"

definition three_digits :: "nat \<Rightarrow> string" where
  "three_digits n =
     [digit_char (n div 100), digit_char (n div 10 mod 10), digit_char (n mod 10)]"

section \<open>drm.ts: the Sec-MS-GEC token\<close>

text \<open>
  A JavaScript number is an IEEE 754 double. A finite double is kept here as the real number
  it is, and every operation whose exact result need not be a double is followed by the
  rounding the standard prescribes: \<open>roundToDouble x\<close> is the double nearest to \<open>x\<close>, that
  is the nearest multiple of \<open>2\<^sup>e\<^sup>-\<^sup>5\<^sup>2\<close> for \<open>2\<^sup>e \<le> |x| < 2\<^sup>e\<^sup>+\<^sup>1\<close>, a tie going to the even
  multiple. The range of the exponent is not modelled: with a finite skew below \<open>10\<^sup>3\<^sup>0\<^sup>0\<close> in
  size no result here leaves it.

  \<^verbatim>\<open>Date.now()\<close>, a whole number of milliseconds, and the accumulated skew
  \<^verbatim>\<open>DRM.clockSkewSeconds\<close> are arguments, and so is the platform's SHA-256
  (\<^verbatim>\<open>crypto.subtle.digest\<close>).
\<close>

definition roundTiesToEven :: "real \<Rightarrow> int" where
  "roundTiesToEven r =
     (let f = \<lfloor>r\<rfloor>
      in if r - of_int f < 1 / 2 then f
         else if 1 / 2 < r - of_int f then f + 1
         else if even f then f else f + 1)"

definition roundToDouble :: "real \<Rightarrow> real" where
  "roundToDouble x =
     (if x = 0 then 0
      else (let ulp = 2 powi (\<lfloor>log 2 \<bar>x\<bar>\<rfloor> - 52)
            in of_int (roundTiesToEven (x / ulp)) * ulp))"

definition TRUSTED_CLIENT_TOKEN :: string where
  "TRUSTED_CLIENT_TOKEN = ''6A5AA1D4EAFF4E9FB37E23D68491D6F4''"

definition WIN_EPOCH :: real where
  "WIN_EPOCH = 11644473600"

definition S_TO_NS :: real where
  "S_TO_NS = 1000000000"

text \<open>
  The operator \<^verbatim>\<open>%\<close>: the remainder has the sign of the dividend. The remainder of two
  doubles is a double, so nothing is rounded.
\<close>

definition js_remainder :: "real \<Rightarrow> real \<Rightarrow> real" where
  "js_remainder x y =
     x - y * of_int (if 0 \<le> x / y then \<lfloor>x / y\<rfloor> else \<lceil>x / y\<rceil>)"

text \<open>\<^verbatim>\<open>Date.now() / 1000 + DRM.clockSkewSeconds\<close>: a division and an addition.\<close>

definition getUnixTimestamp :: "int \<Rightarrow> real \<Rightarrow> real" where
  "getUnixTimestamp now clockSkewSeconds =
     roundToDouble (roundToDouble (of_int now / 1000) + clockSkewSeconds)"

text \<open>
  The text that is hashed, \<^verbatim>\<open>`${Math.floor(ticks)}${TRUSTED_CLIENT_TOKEN}`\<close>, after the three
  compound assignments to \<^verbatim>\<open>ticks\<close>.
\<close>

definition strToHash :: "int \<Rightarrow> real \<Rightarrow> string" where
  "strToHash now clockSkewSeconds =
     (let ticks0 = getUnixTimestamp now clockSkewSeconds;
          ticks1 = roundToDouble (ticks0 + WIN_EPOCH);
          ticks2 = roundToDouble (ticks1 - js_remainder ticks1 300);
          ticks3 = roundToDouble (ticks2 * roundToDouble (S_TO_NS / 100))
      in Number_toString \<lfloor>ticks3\<rfloor> @ TRUSTED_CLIENT_TOKEN)"

definition hex_digit :: "nat \<Rightarrow> char" where
  "hex_digit d = (if d < 10 then char_of (48 + d) else char_of (87 + d))"

text \<open>\<^verbatim>\<open>b.toString(16).padStart(2, '0')\<close> for a byte \<open>b\<close>.\<close>

definition byte_hex :: "char \<Rightarrow> string" where
  "byte_hex b = [hex_digit (of_char b div 16), hex_digit (of_char b mod 16)]"

definition upper_char :: "char \<Rightarrow> char" where
  "upper_char c =
     (if (97 :: nat) \<le> of_char c \<and> of_char c \<le> (122 :: nat)
      then char_of (of_char c - (32 :: nat)) else c)"

text \<open>\<^verbatim>\<open>toUpperCase\<close>, on the ASCII text it is applied to.\<close>

definition toUpperCase :: "string \<Rightarrow> string" where
  "toUpperCase str = map upper_char str"

definition generateSecMsGec :: "(bytes \<Rightarrow> bytes) \<Rightarrow> int \<Rightarrow> real \<Rightarrow> string" where
  "generateSecMsGec sha256 now clockSkewSeconds =
     toUpperCase (concat (map byte_hex (sha256 (strToHash now clockSkewSeconds))))"

text \<open>
  The vocabulary of the claim about the token. The 300-second bucket of a time in seconds;
  the skew-corrected timestamp of an invocation as a real number; and its time since the
  Windows epoch as the machine has it, each of the division and the two additions rounded
  to a double. These are written out on their own, not through the functions above.
\<close>

definition bucket300 :: "real \<Rightarrow> int" where
  "bucket300 t = \<lfloor>t / 300\<rfloor>"

definition skewCorrected :: "int \<Rightarrow> real \<Rightarrow> real" where
  "skewCorrected now skew = of_int now / 1000 + skew"

definition windowsSeconds :: "int \<Rightarrow> real \<Rightarrow> real" where
  "windowsSeconds now skew =
     roundToDouble (roundToDouble (roundToDouble (of_int now / 1000) + skew) + 11644473600)"

text \<open>
  The code of the upper-case hexadecimal digit of a value below 16, the characters
  \<^verbatim>\<open>0-9A-F\<close>, and a stand-in with a 32-byte result for the digest in examples.
\<close>

definition hex_upper :: "nat \<Rightarrow> nat" where
  "hex_upper d = (if d < 10 then 48 + d else 55 + d)"

definition isUpperHex :: "char \<Rightarrow> bool" where
  "isUpperHex c =
     ((48 \<le> (of_char c :: nat) \<and> (of_char c :: nat) \<le> 57) \<or>
      (65 \<le> (of_char c :: nat) \<and> (of_char c :: nat) \<le> 70))"

definition first32 :: "bytes \<Rightarrow> bytes" where
  "first32 bs = take 32 (bs @ replicate 32 (CHR 0x00))"

section \<open>srt-composer.ts\<close>

text \<open>
  A JavaScript string is a \<^typ>\<open>string\<close> whose characters are its code units, for code units
  below 256. Times are integers of milliseconds.
\<close>

record Subtitle =
  index :: "int option"
  start :: int
  end_ms :: int
  content :: string

subsection \<open>String operations\<close>

text \<open>
  The white space and line terminators of JavaScript below code unit 256, which
  \<^verbatim>\<open>String.prototype.trim\<close> strips from both ends.
\<close>

definition isJsSpace :: "char \<Rightarrow> bool" where
  "isJsSpace c =
     (c = CHR 0x09 \<or> c = CHR 0x0A \<or> c = CHR 0x0B \<or> c = CHR 0x0C \<or> c = CHR 0x0D
      \<or> c = CHR 0x20 \<or> c = CHR 0xA0)"

definition js_trim :: "string \<Rightarrow> string" where
  "js_trim str = rev (dropWhile isJsSpace (rev (dropWhile isJsSpace str)))"

text \<open>
  \<^verbatim>\<open>GetSubstitution\<close>: the replacement text of \<^verbatim>\<open>replace\<close> with a string as replacement and
  no capture groups. \<^verbatim>\<open>$$\<close> is a dollar, \<^verbatim>\<open>$&\<close> the match, \<^verbatim>\<open>$`\<close> the text before
  the match, \<^verbatim>\<open>$'\<close> the text after it; any other dollar stands for itself.
\<close>

fun getSubstitution :: "string \<Rightarrow> string \<Rightarrow> string \<Rightarrow> string \<Rightarrow> string" where
  "getSubstitution matched pre post [] = []"
| "getSubstitution matched pre post [c] = [c]"
| "getSubstitution matched pre post (c # d # cs) =
     (if c = CHR 0x24 \<and> d = CHR 0x24 then CHR 0x24 # getSubstitution matched pre post cs
      else if c = CHR 0x24 \<and> d = CHR 0x26 then matched @ getSubstitution matched pre post cs
      else if c = CHR 0x24 \<and> d = CHR 0x60 then pre @ getSubstitution matched pre post cs
      else if c = CHR 0x24 \<and> d = CHR 0x27 then post @ getSubstitution matched pre post cs
      else c # getSubstitution matched pre post (d # cs))"

text \<open>
  \<^verbatim>\<open>str.replace(pat, replacement)\<close> for a string \<open>pat\<close>: the first occurrence only.
  \<open>pre\<close> is the text already passed.
\<close>

fun replaceFirstFrom :: "string \<Rightarrow> string \<Rightarrow> string \<Rightarrow> string \<Rightarrow> string" where
  "replaceFirstFrom pat replacement pre [] =
     (if pat = [] then getSubstitution pat pre [] replacement else [])"
| "replaceFirstFrom pat replacement pre (c # cs) =
     (if take (length pat) (c # cs) = pat
      then getSubstitution pat pre (drop (length pat) (c # cs)) replacement
             @ drop (length pat) (c # cs)
      else c # replaceFirstFrom pat replacement (pre @ [c]) cs)"

definition replaceFirst :: "string \<Rightarrow> string \<Rightarrow> string \<Rightarrow> string" where
  "replaceFirst pat replacement str = replaceFirstFrom pat replacement [] str"

text \<open>
  \<^verbatim>\<open>str.replace(/pat/g, replacement)\<close> for a regular expression that matches the literal,
  non-empty text \<open>pat\<close>: every occurrence, left to right.
\<close>

function replaceAllFrom :: "string \<Rightarrow> string \<Rightarrow> string \<Rightarrow> string \<Rightarrow> string" where
  "replaceAllFrom pat replacement pre [] = []"
| "replaceAllFrom pat replacement pre (c # cs) =
     (if pat \<noteq> [] \<and> take (length pat) (c # cs) = pat
      then getSubstitution pat pre (drop (length pat) (c # cs)) replacement
             @ replaceAllFrom pat replacement (pre @ pat) (drop (length pat) (c # cs))
      else c # replaceAllFrom pat replacement (pre @ [c]) cs)"
  by pat_completeness auto
termination
  by (relation "measure (\<lambda>(pat, replacement, pre, s). length s)") auto

definition replaceAll :: "string \<Rightarrow> string \<Rightarrow> string \<Rightarrow> string" where
  "replaceAll pat replacement str = replaceAllFrom pat replacement [] str"

subsection \<open>makeLegalContent\<close>

text \<open>
  \<^verbatim>\<open>MULTI_WS_REGEX = /\n\n+/g\<close>. The object is shared and global, so \<^verbatim>\<open>test\<close> starts at its
  \<^verbatim>\<open>lastIndex\<close>; \<^verbatim>\<open>makeLegalContent\<close> is its only user and leaves \<^verbatim>\<open>lastIndex\<close> at 0 on
  every path (a failed \<^verbatim>\<open>test\<close> resets it, and a successful one is followed by \<^verbatim>\<open>replace\<close>,
  which resets it), so each \<^verbatim>\<open>test\<close> searches the whole string.
\<close>

fun MULTI_WS_REGEX_test :: "string \<Rightarrow> bool" where
  "MULTI_WS_REGEX_test (c # d # cs) =
     ((c = CHR 0x0A \<and> d = CHR 0x0A) \<or> MULTI_WS_REGEX_test (d # cs))"
| "MULTI_WS_REGEX_test cs = False"

text \<open>\<^verbatim>\<open>str.replace(MULTI_WS_REGEX, '\n')\<close>: each run of two or more newlines becomes one.\<close>

function MULTI_WS_REGEX_replace :: "string \<Rightarrow> string" where
  "MULTI_WS_REGEX_replace [] = []"
| "MULTI_WS_REGEX_replace [c] = [c]"
| "MULTI_WS_REGEX_replace (c # d # cs) =
     (if c = CHR 0x0A \<and> d = CHR 0x0A
      then CHR 0x0A # MULTI_WS_REGEX_replace (dropWhile (\<lambda>x. x = CHR 0x0A) cs)
      else c # MULTI_WS_REGEX_replace (d # cs))"
  by pat_completeness auto
termination
  by (relation "measure length") (auto simp: less_Suc_eq_le intro: le_trans [OF length_dropWhile_le])

definition makeLegalContent :: "string \<Rightarrow> string" where
  "makeLegalContent str =
     (if str \<noteq> [] \<and> hd str \<noteq> CHR 0x0A \<and> \<not> MULTI_WS_REGEX_test str then str
      else MULTI_WS_REGEX_replace (js_trim str))"

subsection \<open>Timestamps and blocks\<close>

text \<open>The operator \<^verbatim>\<open>%\<close> on integers: the remainder has the sign of the dividend.\<close>

definition js_rem :: "int \<Rightarrow> int \<Rightarrow> int" where
  "js_rem a b = (if 0 \<le> a then a mod \<bar>b\<bar> else - ((- a) mod \<bar>b\<bar>))"

definition timedeltaToSrtTimestamp :: "int \<Rightarrow> string" where
  "timedeltaToSrtTimestamp milliseconds =
     (let totalSeconds = milliseconds div 1000;
          hrs = totalSeconds div 3600;
          secsRemainder = js_rem totalSeconds 3600;
          mins = secsRemainder div 60;
          secs = js_rem secsRemainder 60;
          msecs = js_rem milliseconds 1000
      in padStart 2 (Number_toString hrs) @ '':'' @ padStart 2 (Number_toString mins) @ '':''
           @ padStart 2 (Number_toString secs) @ '','' @ padStart 3 (Number_toString msecs))"

definition toSrt :: "Subtitle \<Rightarrow> string option \<Rightarrow> string" where
  "toSrt sub eol =
     (let outputContent = makeLegalContent (content sub);
          lineEnding = (case eol of None \<Rightarrow> [CHR 0x0A] | Some e \<Rightarrow> e);
          finalContent =
            (if eol \<noteq> Some [CHR 0x0A] then replaceAll [CHR 0x0A] lineEnding outputContent
             else outputContent);
          template = ''{idx}{eol}{start} --> {end}{eol}{content}{eol}{eol}''
      in replaceFirst ''{content}'' finalContent
           (replaceFirst ''{end}'' (timedeltaToSrtTimestamp (end_ms sub))
             (replaceFirst ''{start}'' (timedeltaToSrtTimestamp (start sub))
               (replaceAll ''{eol}'' lineEnding
                 (replaceFirst ''{idx}''
                    (Number_toString (case index sub of None \<Rightarrow> 0 | Some i \<Rightarrow> i))
                    template)))))"

subsection \<open>Sorting and reindexing\<close>

text \<open>
  Subtitles are objects: \<^verbatim>\<open>sortAndReindex\<close> writes to the objects it is given. An object is
  a reference, and the store gives each reference its fields.
\<close>

type_synonym ref = nat

type_synonym store = "ref \<Rightarrow> Subtitle"

definition compareTo :: "Subtitle \<Rightarrow> Subtitle \<Rightarrow> int" where
  "compareTo this other =
     (if start this \<noteq> start other then start this - start other
      else if end_ms this \<noteq> end_ms other then end_ms this - end_ms other
      else (case index this of None \<Rightarrow> 0 | Some i \<Rightarrow> i)
             - (case index other of None \<Rightarrow> 0 | Some i \<Rightarrow> i))"

text \<open>
  \<^verbatim>\<open>Array.prototype.sort\<close> is stable: the result is the array in comparator order, equal
  elements in the order they came. Insertion from the left computes that order.
\<close>

fun insertSorted :: "('a \<Rightarrow> 'a \<Rightarrow> int) \<Rightarrow> 'a \<Rightarrow> 'a list \<Rightarrow> 'a list" where
  "insertSorted cmp x [] = [x]"
| "insertSorted cmp x (y # ys) =
     (if cmp x y < 0 then x # y # ys else y # insertSorted cmp x ys)"

definition Array_sort :: "('a \<Rightarrow> 'a \<Rightarrow> int) \<Rightarrow> 'a list \<Rightarrow> 'a list" where
  "Array_sort cmp xs = foldl (\<lambda>acc x. insertSorted cmp x acc) [] xs"

text \<open>
  \<^verbatim>\<open>shouldSkipSub\<close>: the message of the first skip condition that holds, \<open>None\<close> when the
  subtitle is kept.
\<close>

definition shouldSkipSub :: "Subtitle \<Rightarrow> string option" where
  "shouldSkipSub subtitle =
     (if js_trim (content subtitle) = [] then Some ''No content''
      else if start subtitle < 0 then Some ''Start time < 0 seconds''
      else if start subtitle \<ge> end_ms subtitle then Some ''Subtitle start time >= end time''
      else None)"

text \<open>
  The \<^verbatim>\<open>for\<close> loop of \<^verbatim>\<open>sortAndReindex\<close> over the sorted array. Each yield is recorded with
  the reference it hands out and the fields the object has at that moment. With
  \<^verbatim>\<open>inPlace\<close> false the source builds \<^verbatim>\<open>copy\<close> and assigns its four fields back to
  \<^verbatim>\<open>subtitle\<close>; the loop goes on with \<^verbatim>\<open>subtitle\<close>.
\<close>

fun reindexLoop ::
  "store \<Rightarrow> ref list \<Rightarrow> int \<Rightarrow> int \<Rightarrow> bool \<Rightarrow> bool \<Rightarrow> (ref \<times> Subtitle) list \<times> store" where
  "reindexLoop \<sigma> [] subNum skippedSubs inPlace skip = ([], \<sigma>)"
| "reindexLoop \<sigma> (subtitle # rest) subNum skippedSubs inPlace skip =
     (let \<sigma>1 =
            (if \<not> inPlace then
               (let copy = \<lparr>index = index (\<sigma> subtitle), start = start (\<sigma> subtitle),
                            end_ms = end_ms (\<sigma> subtitle), content = content (\<sigma> subtitle)\<rparr>
                in \<sigma>(subtitle := (\<sigma> subtitle)\<lparr>index := index copy, start := start copy,
                                     end_ms := end_ms copy, content := content copy\<rparr>))
             else \<sigma>)
      in if skip \<and> shouldSkipSub (\<sigma>1 subtitle) \<noteq> None then
           reindexLoop \<sigma>1 rest (subNum + 1) (skippedSubs + 1) inPlace skip
         else
           (let \<sigma>2 = \<sigma>1(subtitle := (\<sigma>1 subtitle)\<lparr>index := Some (subNum - skippedSubs)\<rparr>);
                later = reindexLoop \<sigma>2 rest (subNum + 1) skippedSubs inPlace skip
            in ((subtitle, \<sigma>2 subtitle) # fst later, snd later)))"

definition sortAndReindex ::
  "store \<Rightarrow> ref list \<Rightarrow> int \<Rightarrow> bool \<Rightarrow> bool \<Rightarrow> (ref \<times> Subtitle) list \<times> store" where
  "sortAndReindex \<sigma> subtitles startIndex inPlace skip =
     reindexLoop \<sigma> (Array_sort (\<lambda>a b. compareTo (\<sigma> a) (\<sigma> b)) subtitles)
       startIndex 0 inPlace skip"

text \<open>
  \<^verbatim>\<open>compose\<close>: the blocks of the subtitles, joined, and the store it leaves. It calls
  \<^verbatim>\<open>sortAndReindex\<close> with three arguments, so \<^verbatim>\<open>skip\<close> has its default \<^verbatim>\<open>true\<close>. Each block
  is rendered when its subtitle is yielded.
\<close>

definition compose ::
  "store \<Rightarrow> ref list \<Rightarrow> bool \<Rightarrow> int \<Rightarrow> string option \<Rightarrow> bool \<Rightarrow> string \<times> store" where
  "compose \<sigma> subtitles reindex startIndex eol inPlace =
     (let run = (if reindex then sortAndReindex \<sigma> subtitles startIndex inPlace True
                 else (map (\<lambda>r. (r, \<sigma> r)) subtitles, \<sigma>))
      in (concat (map (\<lambda>y. toSrt (snd y) eol) (fst run)), snd run))"

text \<open>Two subtitles with the same start, end and content; and a store of two subtitles.\<close>

definition sameStartEndContent :: "Subtitle \<Rightarrow> Subtitle \<Rightarrow> bool" where
  "sameStartEndContent a b = (start a = start b \<and> end_ms a = end_ms b \<and> content a = content b)"

definition example_store :: store where
  "example_store r =
     (if r = 0 then \<lparr>index = Some 5, start = 2000, end_ms = 3000, content = ''Second''\<rparr>
      else \<lparr>index = Some 3, start = 1000, end_ms = 2000, content = ''First''\<rparr>)"

section \<open>Properties of the chunker\<close>

lemmas split_point_eval =
  findLastNewlineOrSpaceWithinLimit_def findSafeUtf8SplitPoint_def TextDecoder_decode_throws_def
  slice_def trimWhitespace_def isTrimByte_def eval_nat_numeral

lemma encode_ni_hao_shi_jie:
  "TextEncoder_encode [0x4F60, 0x597D, 0x4E16, 0x754C] =
     [CHR 0xE4, CHR 0xBD, CHR 0xA0, CHR 0xE5, CHR 0xA5, CHR 0xBD,
      CHR 0xE4, CHR 0xB8, CHR 0x96, CHR 0xE7, CHR 0x95, CHR 0x8C]"
  by (simp add: TextEncoder_encode_def utf8_of_codepoint_def char_of_eq_iff)

text \<open>
  C1 (every yielded chunk has at most \<open>maxBytes\<close> bytes, also when the first \<open>maxBytes\<close> bytes
  hold no newline and no space). The code does not keep the bound: the four Chinese
  characters of the repository's own test, twelve bytes of UTF-8 without white space, are
  yielded as one chunk of twelve bytes under the limit 7. \<^verbatim>\<open>findSafeUtf8SplitPoint\<close> is handed
  the whole remaining buffer, not its first \<open>byteLength\<close> bytes, and its decoder never
  throws, so the split point is the end of the buffer.
\<close>

theorem chunk_exceeds_byteLength:
  "splitTextByByteLength [0x4F60, 0x597D, 0x4E16, 0x754C] 7 =
     ([[CHR 0xE4, CHR 0xBD, CHR 0xA0, CHR 0xE5, CHR 0xA5, CHR 0xBD,
        CHR 0xE4, CHR 0xB8, CHR 0x96, CHR 0xE7, CHR 0x95, CHR 0x8C]], None)"
  unfolding splitTextByByteLength_def encode_ni_hao_shi_jie
  by (simp add:
        splitLoop.simps [of "[CHR 0xE4, CHR 0xBD, CHR 0xA0, CHR 0xE5, CHR 0xA5, CHR 0xBD,
                              CHR 0xE4, CHR 0xB8, CHR 0x96, CHR 0xE7, CHR 0x95, CHR 0x8C]" 7]
        splitLoop.simps [of "[]" 7]
        adjustSplitPointForXmlEntity.simps [of _ 12] split_point_eval)

text \<open>
  The entity walk never returns a negative split point, so the \<^verbatim>\<open>throw\<close> after it is dead
  code: the generator fails only on \<open>byteLength \<le> 0\<close>.
\<close>

lemma adjustSplitPointForXmlEntity_nonneg:
  "0 \<le> a \<Longrightarrow> 0 \<le> adjustSplitPointForXmlEntity buf a"
proof (induction buf a rule: adjustSplitPointForXmlEntity.induct)
  case (1 buf a)
  show ?case
  proof (cases "0 < a")
    case False
    then have "adjustSplitPointForXmlEntity buf a = a"
      by (subst adjustSplitPointForXmlEntity.simps) (simp only: if_False)
    with "1.prems" show ?thesis
      by simp
  next
    case True
    define amp where "amp = lastIndexBelow buf (CHR 0x26) (nat a)"
    have amp_ge: "- 1 \<le> amp"
      unfolding amp_def by (rule lastIndexBelow_ge)
    show ?thesis
    proof (cases "amp = - 1 \<or> CHR 0x3B \<in> set (slice buf (nat amp + 1) (nat a))")
      case True
      with \<open>0 < a\<close> show ?thesis
        by (auto simp: adjustSplitPointForXmlEntity.simps [of buf a] amp_def Let_def)
    next
      case False
      then have "0 \<le> amp"
        using amp_ge by arith
      with False \<open>0 < a\<close> have "0 \<le> adjustSplitPointForXmlEntity buf amp"
        using "1.IH" [of amp] by (simp add: amp_def)
      with False \<open>0 < a\<close> show ?thesis
        by (simp add: adjustSplitPointForXmlEntity.simps [of buf a] amp_def Let_def)
    qed
  qed
qed

lemma findLastNewlineOrSpaceWithinLimit_ge: "- 1 \<le> findLastNewlineOrSpaceWithinLimit buf n"
  by (simp add: findLastNewlineOrSpaceWithinLimit_def Let_def lastIndexBelow_ge)

lemma splitLoop_never_fails: "snd (splitLoop buf byteLength) = None"
proof (induction buf byteLength rule: splitLoop.induct)
  case (1 buf byteLength)
  show ?case
  proof (cases "0 < byteLength \<and> byteLength < int (length buf)")
    case False
    then have "splitLoop buf byteLength =
        (let remainingChunk = trimWhitespace buf
         in (if length remainingChunk > 0 then [remainingChunk] else [], None))"
      by (subst splitLoop.simps) (simp only: if_False)
    then show ?thesis
      by (simp add: Let_def)
  next
    case True
    define s0 where "s0 = findLastNewlineOrSpaceWithinLimit buf byteLength"
    define s1 where "s1 = (if s0 < 0 then findSafeUtf8SplitPoint buf else s0)"
    define sp where "sp = adjustSplitPointForXmlEntity buf s1"
    have "0 \<le> s1"
      by (simp add: s1_def findSafeUtf8SplitPoint_def)
    then have sp: "0 \<le> sp"
      unfolding sp_def by (rule adjustSplitPointForXmlEntity_nonneg)
    have unfolded: "splitLoop buf byteLength =
        (if sp < 0 then ([], Some ChunkingError)
         else ((if length (trimWhitespace (slice buf 0 (nat sp))) > 0
                then [trimWhitespace (slice buf 0 (nat sp))] else [])
               @ fst (splitLoop (drop (if sp > 0 then nat sp else 1) buf) byteLength),
               snd (splitLoop (drop (if sp > 0 then nat sp else 1) buf) byteLength)))"
      unfolding sp_def s1_def s0_def
      by (subst splitLoop.simps) (simp only: True simp_thms if_True Let_def)
    have "\<not> sp < 0"
      using sp by simp
    then have "snd (splitLoop (drop (if sp > 0 then nat sp else 1) buf) byteLength) = None"
      by (rule "1.IH" [OF True s0_def s1_def sp_def _ refl])
    with unfolded sp show ?thesis
      by simp
  qed
qed

lemma encode_amp_ab_cdef:
  "TextEncoder_encode [0x26, 0x61, 0x62, 0x20, 0x63, 0x64, 0x65, 0x66] = ''&ab cdef''"
  by (simp add: TextEncoder_encode_def utf8_of_codepoint_def char_of_eq_iff)

text \<open>
  C2 (the chunks put together give the input back up to trimmed white space, and a walk
  that finds no split point fails with \<open>ChunkingError\<close>). The code loses a byte without
  failing: for the text \<^verbatim>\<open>&ab cdef\<close> and the limit 5 the walk moves the split point back to
  the ampersand at index 0, the empty chunk is not yielded, the loop goes on one byte
  further, and the chunks are \<^verbatim>\<open>ab\<close> and \<^verbatim>\<open>cdef\<close>: the ampersand is gone and no error
  is raised.
\<close>

theorem chunker_drops_ampersand:
  "splitTextByByteLength [0x26, 0x61, 0x62, 0x20, 0x63, 0x64, 0x65, 0x66] 5 =
     ([''ab'', ''cdef''], None)"
  unfolding splitTextByByteLength_def encode_amp_ab_cdef
  by (simp add:
        splitLoop.simps [of "''&ab cdef''" 5] splitLoop.simps [of "''ab cdef''" 5]
        splitLoop.simps [of "'' cdef''" 5]
        adjustSplitPointForXmlEntity.simps [of _ 3] adjustSplitPointForXmlEntity.simps [of _ 2]
        adjustSplitPointForXmlEntity.simps [of _ 0] split_point_eval)

section \<open>Properties of the timestamp format\<close>

lemma digits_lt_10: "n < 10 \<Longrightarrow> digits_of_nat n = [digit_char n]"
  by (subst digits_of_nat.simps) simp

lemma digits_ge_10: "10 \<le> n \<Longrightarrow> digits_of_nat n = digits_of_nat (n div 10) @ [digit_char (n mod 10)]"
  by (subst digits_of_nat.simps) simp

lemma digits_lt_100: "10 \<le> n \<Longrightarrow> n < 100 \<Longrightarrow> digits_of_nat n = [digit_char (n div 10), digit_char (n mod 10)]"
  by (simp add: digits_ge_10 digits_lt_10)

lemma digits_lt_1000: "100 \<le> n \<Longrightarrow> n < 1000 \<Longrightarrow>
   digits_of_nat n = [digit_char (n div 100), digit_char (n div 10 mod 10), digit_char (n mod 10)]"
  by (simp add: digits_ge_10 [of n] digits_lt_100 div_mult2_eq [symmetric])

lemma length_digits_pos: "Suc 0 \<le> length (digits_of_nat n)"
  by (subst digits_of_nat.simps) simp

lemma length_digits_ge: "10 \<le> n \<Longrightarrow> 2 \<le> length (digits_of_nat n)"
  using length_digits_pos [of "n div 10"] by (simp add: digits_ge_10 [of n])

lemma of_char_digit: "d < 10 \<Longrightarrow> of_char (digit_char d) = 48 + d"
  by (simp add: digit_char_def)

lemma decimal_value_digits: "decimal_value (digits_of_nat n) = n"
proof (induction n rule: digits_of_nat.induct)
  case (1 n)
  show ?case
  proof (cases "n < 10")
    case True
    then show ?thesis by (simp add: decimal_value_def digits_lt_10 of_char_digit)
  next
    case False
    then have "decimal_value (digits_of_nat (n div 10)) = n div 10"
      using "1.IH" by simp
    with False show ?thesis
      by (simp add: decimal_value_def digits_ge_10 of_char_digit)
  qed
qed

lemma digit_char_0: "digit_char 0 = CHR ''0''"
  by (simp add: digit_char_def char_of_eq_iff)

lemma pad2: "n < 100 \<Longrightarrow> padStart 2 (digits_of_nat n) = [digit_char (n div 10), digit_char (n mod 10)]"
  by (cases "n < 10") (simp_all add: padStart_def digits_lt_10 digits_lt_100 digit_char_0)

lemma pad3: "n < 1000 \<Longrightarrow> padStart 3 (digits_of_nat n) = [digit_char (n div 100), digit_char (n div 10 mod 10), digit_char (n mod 10)]"
proof -
  assume n: "n < 1000"
  consider "n < 10" | "10 \<le> n" "n < 100" | "100 \<le> n"
    by linarith
  then show ?thesis
  proof cases
    case 1
    then show ?thesis
      by (simp add: padStart_def digits_lt_10 digit_char_0 numeral_2_eq_2)
  next
    case 2
    then show ?thesis
      by (simp add: padStart_def digits_lt_100 digit_char_0)
  next
    case 3
    with n show ?thesis
      by (simp add: padStart_def digits_lt_1000)
  qed
qed

lemma decimal_value_pad2: "decimal_value (padStart 2 (digits_of_nat h)) = h"
proof (cases "h < 10")
  case True
  then show ?thesis
    by (simp add: decimal_value_def pad2 of_char_digit)
next
  case False
  then have "2 \<le> length (digits_of_nat h)"
    by (simp add: length_digits_ge)
  then have "padStart 2 (digits_of_nat h) = digits_of_nat h"
    by (simp add: padStart_def)
  then show ?thesis
    by (simp only: decimal_value_digits)
qed

lemma length_pad2: "2 \<le> length (padStart 2 str)"
  by (simp add: padStart_def)

lemma timestamp_fields:
  assumes "0 \<le> ms"
  shows "timedeltaToSrtTimestamp ms =
      padStart 2 (Number_toString (ms div 3600000)) @ '':'' @
      two_digits (nat (ms div 60000 mod 60)) @ '':'' @
      two_digits (nat (ms div 1000 mod 60)) @ '','' @
      three_digits (nat (ms mod 1000))"
proof -
  define t where "t = ms div 1000"
  have t: "0 \<le> t"
    using assms by (simp add: t_def)
  have hrs: "t div 3600 = ms div 3600000"
    unfolding t_def by (simp add: zdiv_zmult2_eq [symmetric])
  have rem: "js_rem t 3600 = t mod 3600"
    using t by (simp add: js_rem_def)
  have mins: "t mod 3600 div 60 = ms div 60000 mod 60"
  proof -
    have "t mod 3600 = 60 * (t div 60 mod 60) + t mod 60"
      using zmod_zmult2_eq [of 60 t 60] by simp
    then have "t mod 3600 div 60 = t div 60 mod 60"
      by simp
    also have "t div 60 = ms div 60000"
      unfolding t_def by (simp add: zdiv_zmult2_eq [symmetric])
    finally show ?thesis .
  qed
  have secs: "js_rem (t mod 3600) 60 = t mod 60"
  proof -
    have "js_rem (t mod 3600) 60 = t mod 3600 mod 60"
      by (simp add: js_rem_def)
    also have "\<dots> = t mod 60"
      by (simp add: mod_mod_cancel)
    finally show ?thesis .
  qed
  have msecs: "js_rem ms 1000 = ms mod 1000"
    using assms by (simp add: js_rem_def)
  have field2: "padStart 2 (Number_toString x) = two_digits (nat x)" if "0 \<le> x" "x < 100" for x
    using that by (simp add: Number_toString_def two_digits_def pad2)
  have m2: "padStart 2 (Number_toString (ms div 60000 mod 60)) = two_digits (nat (ms div 60000 mod 60))"
    by (rule field2) simp_all
  have s2: "padStart 2 (Number_toString (t mod 60)) = two_digits (nat (t mod 60))"
    by (rule field2) simp_all
  have field3: "padStart 3 (Number_toString x) = three_digits (nat x)" if "0 \<le> x" "x < 1000" for x
    using that by (simp add: Number_toString_def three_digits_def pad3)
  have f3: "padStart 3 (Number_toString (ms mod 1000)) = three_digits (nat (ms mod 1000))"
    by (rule field3) simp_all
  show ?thesis
    unfolding timedeltaToSrtTimestamp_def Let_def t_def [symmetric]
    by (simp only: hrs rem mins secs msecs m2 s2 f3)
qed

text \<open>
  C8 (for every non-negative integer of milliseconds the formatter renders
  \<^verbatim>\<open>HH:MM:SS,mmm\<close>, the hours not wrapped at 24; 0, 65000 and 3661500 render as the spec
  says). The minutes and seconds are two digits each and the milliseconds three; the hours
  are the decimal text of the whole number of hours, \<open>ms div 3600000\<close>, at least two
  digits long.
\<close>

theorem timestamp_format:
  "(0 \<le> ms \<longrightarrow>
      timedeltaToSrtTimestamp ms =
        padStart 2 (Number_toString (ms div 3600000)) @ '':'' @
        two_digits (nat (ms div 60000 mod 60)) @ '':'' @
        two_digits (nat (ms div 1000 mod 60)) @ '','' @
        three_digits (nat (ms mod 1000))
      \<and> int (decimal_value (padStart 2 (Number_toString (ms div 3600000)))) = ms div 3600000
      \<and> 2 \<le> length (padStart 2 (Number_toString (ms div 3600000))))
   \<and> timedeltaToSrtTimestamp 0 = ''00:00:00,000''
   \<and> timedeltaToSrtTimestamp 65000 = ''00:01:05,000''
   \<and> timedeltaToSrtTimestamp 3661500 = ''01:01:01,500''"
proof -
  have general: "timedeltaToSrtTimestamp ms =
        padStart 2 (Number_toString (ms div 3600000)) @ '':'' @
        two_digits (nat (ms div 60000 mod 60)) @ '':'' @
        two_digits (nat (ms div 1000 mod 60)) @ '','' @
        three_digits (nat (ms mod 1000))
      \<and> int (decimal_value (padStart 2 (Number_toString (ms div 3600000)))) = ms div 3600000
      \<and> 2 \<le> length (padStart 2 (Number_toString (ms div 3600000)))" if "0 \<le> ms"
  proof -
    have "0 \<le> ms div 3600000"
      using that by simp
    then have "Number_toString (ms div 3600000) = digits_of_nat (nat (ms div 3600000))"
      by (simp add: Number_toString_def)
    with \<open>0 \<le> ms div 3600000\<close> show ?thesis
      using timestamp_fields [OF that] by (simp only: decimal_value_pad2 length_pad2) simp
  qed
  have e0: "timedeltaToSrtTimestamp 0 = ''00:00:00,000''"
    by (simp add: timestamp_fields Number_toString_def pad2 two_digits_def three_digits_def
          digit_char_def char_of_eq_iff)
  have e1: "timedeltaToSrtTimestamp 65000 = ''00:01:05,000''"
    by (simp add: timestamp_fields Number_toString_def pad2 two_digits_def three_digits_def
          digit_char_def char_of_eq_iff)
  have e2: "timedeltaToSrtTimestamp 3661500 = ''01:01:01,500''"
    by (simp add: timestamp_fields Number_toString_def pad2 two_digits_def three_digits_def
          digit_char_def char_of_eq_iff)
  from general e0 e1 e2 show ?thesis
    by blast
qed

text \<open>The theorem at one hundred hours: the hours field is three digits long.\<close>

theorem timestamp_format_witness:
  "(0 :: int) \<le> 360000000 \<and> timedeltaToSrtTimestamp 360000000 = ''100:00:00,000''"
  using timestamp_format [of 360000000]
  by (simp add: Number_toString_def padStart_def digits_lt_1000 two_digits_def three_digits_def
        digit_char_def char_of_eq_iff)


section \<open>Properties of the subtitle blocks\<close>

lemmas timestamp_eval = timestamp_fields Number_toString_def pad2 two_digits_def three_digits_def
  digit_char_def char_of_eq_iff

lemma timestamp_1000: "timedeltaToSrtTimestamp 1000 = ''00:00:01,000''"
  by (simp add: timestamp_eval)

lemma timestamp_2000: "timedeltaToSrtTimestamp 2000 = ''00:00:02,000''"
  by (simp add: timestamp_eval)

lemma Number_toString_1: "Number_toString 1 = ''1''"
  by (simp add: Number_toString_def digits_lt_10 digit_char_def char_of_eq_iff)

lemmas srt_eval = toSrt_def replaceFirst_def replaceAll_def Let_def
  timestamp_1000 timestamp_2000 Number_toString_1

text \<open>
  C7 (the content rendered into a block is the normalized content, also for content that
  ends with one newline). The code keeps such a newline: the quick check of
  \<^verbatim>\<open>makeLegalContent\<close> looks at the first character and for a run of newlines only, so
  \<^verbatim>\<open>Hello\n\<close> is returned as it is and its block ends with a blank line too many.
\<close>

theorem trailing_newline_not_stripped:
  "makeLegalContent (''Hello'' @ [CHR 0x0A]) = ''Hello'' @ [CHR 0x0A] \<and>
   toSrt \<lparr>index = Some 1, start = 1000, end_ms = 2000, content = ''Hello'' @ [CHR 0x0A]\<rparr> None =
     ''1'' @ [CHR 0x0A] @ ''00:00:01,000 --> 00:00:02,000'' @ [CHR 0x0A] @ ''Hello''
       @ [CHR 0x0A, CHR 0x0A, CHR 0x0A]"
proof -
  have legal: "makeLegalContent (''Hello'' @ [CHR 0x0A]) = ''Hello'' @ [CHR 0x0A]"
    by (simp add: makeLegalContent_def)
  then show ?thesis
    by (simp add: legal [simplified] srt_eval)
qed

text \<open>
  The slow path does strip and collapse, and the template's \<^verbatim>\<open>replace\<close> reads a dollar
  in the content as a pattern.
\<close>

lemma makeLegalContent_slow_path:
  "makeLegalContent ([CHR 0x0A] @ ''Hello'' @ [CHR 0x0A, CHR 0x0A, CHR 0x0A] @ ''World''
      @ [CHR 0x0A]) = ''Hello'' @ [CHR 0x0A] @ ''World''"
  by (simp add: makeLegalContent_def js_trim_def isJsSpace_def)

lemma toSrt_dollar_pattern:
  "toSrt \<lparr>index = Some 1, start = 1000, end_ms = 2000, content = ''a$&b''\<rparr> None =
     ''1'' @ [CHR 0x0A] @ ''00:00:01,000 --> 00:00:02,000'' @ [CHR 0x0A] @ ''a{content}b''
       @ [CHR 0x0A, CHR 0x0A]"
proof -
  have "makeLegalContent ''a$&b'' = ''a$&b''"
    by (simp add: makeLegalContent_def)
  then show ?thesis
    by (simp add: srt_eval)
qed

section \<open>Properties of the decoder\<close>

text \<open>ASCII bytes decode to themselves.\<close>

lemma utf8_decode_ascii:
  "\<forall>c \<in> set bs. of_char c < (0x80 :: nat) \<Longrightarrow> utf8_decode bs = map of_char bs"
  by (induction bs) (simp_all add: utf8_decode.simps(2))

lemma TextEncoder_encode_ascii:
  "\<forall>c \<in> set bs. of_char c < (0x80 :: nat) \<Longrightarrow> TextEncoder_encode (map of_char bs) = bs"
  by (induction bs) (simp_all add: TextEncoder_encode_def utf8_of_codepoint_def)

lemma TextDecoder_decode_ascii:
  assumes "\<forall>c \<in> set bs. of_char c < (0x80 :: nat)"
  shows "TextDecoder_decode bs = bs"
proof -
  have "take 3 bs \<noteq> [CHR 0xEF, CHR 0xBB, CHR 0xBF]"
  proof
    assume "take 3 bs = [CHR 0xEF, CHR 0xBB, CHR 0xBF]"
    then have "CHR 0xEF \<in> set bs"
      by (cases bs) auto
    with assms show False
      by auto
  qed
  with assms show ?thesis
    by (simp add: TextDecoder_decode_def utf8_decode_ascii TextEncoder_encode_ascii)
qed

lemma TextDecoder_decode_byte_order_mark:
  "\<forall>c \<in> set bs. of_char c < (0x80 :: nat) \<Longrightarrow>
     TextDecoder_decode (CHR 0xEF # CHR 0xBB # CHR 0xBF # bs) = bs"
  by (simp add: TextDecoder_decode_def utf8_decode_ascii TextEncoder_encode_ascii)

lemma utf8_continuation_pos:
  "0 < needed \<Longrightarrow>
     utf8_continuation needed lower upper codePoint [] = (None, [])"
  "0 < needed \<Longrightarrow>
     utf8_continuation needed lower upper codePoint (b # bs) =
       (if lower \<le> of_char b \<and> of_char b \<le> upper
        then utf8_continuation (needed - 1) 0x80 0xBF (codePoint * 0x40 + of_char b mod 0x40) bs
        else (None, b # bs))"
  by (cases needed; simp)+

text \<open>
  A byte order mark is dropped, a malformed byte becomes U+FFFD, and a sequence cut short
  gives the byte that cut it back.
\<close>

lemma TextDecoder_decode_examples:
  "TextDecoder_decode ([CHR 0xEF, CHR 0xBB, CHR 0xBF] @ ''Path'') = ''Path''"
  "TextDecoder_decode [CHR 0xFF, CHR 0x3A] = [CHR 0xEF, CHR 0xBF, CHR 0xBD, CHR 0x3A]"
  "TextDecoder_decode [CHR 0xE4, CHR 0x3A] = [CHR 0xEF, CHR 0xBF, CHR 0xBD, CHR 0x3A]"
  "TextDecoder_decode [CHR 0xE4, CHR 0xBD, CHR 0xA0] = [CHR 0xE4, CHR 0xBD, CHR 0xA0]"
  by (simp_all add: TextDecoder_decode_def utf8_decode.simps(2) utf8_sequence_def
        utf8_continuation_pos TextEncoder_encode_def utf8_of_codepoint_def char_of_eq_iff)

section \<open>Properties of the session\<close>

lemma state_rejectPromise [simp]: "state (rejectPromise e s) = state s"
  by (simp add: rejectPromise_def)

lemma state_resolvePromise [simp]: "state (resolvePromise s) = state s"
  by (simp add: resolvePromise_def)

lemma parseMetadataLoop_offset:
  "parseMetadataLoop st ms = Inr md \<Longrightarrow> \<forall>m \<in> set ms. 0 \<le> Offset m \<and> 0 \<le> Duration m \<Longrightarrow>
     offsetCompensation st \<le> chunk_offset md \<and> 0 \<le> chunk_duration md"
  by (induction ms) (auto split: if_splits)

lemma parseMetadata_offset:
  "reportsNonNegative json \<Longrightarrow> parseMetadata json st body = Inr md \<Longrightarrow>
     offsetCompensation st \<le> chunk_offset md \<and> 0 \<le> chunk_duration md"
  unfolding parseMetadata_def reportsNonNegative_def
  by (auto split: option.splits dest!: parseMetadataLoop_offset)

lemma onTextMessage_step:
  assumes "reportsNonNegative json" and "offsetInv (state s)"
  shows "offsetInv (state (onTextMessage json s frame)) \<and>
         offsetCompensation (state s) \<le> offsetCompensation (state (onTextMessage json s frame))"
proof (cases "findHeaderEnd frame")
  case None
  with assms show ?thesis
    by (simp add: onTextMessage_def)
next
  case (Some headerEnd)
  obtain hdrs body where hb: "getHeadersAndData frame headerEnd = (hdrs, body)"
    by (cases "getHeadersAndData frame headerEnd")
  show ?thesis
  proof (cases "parseMetadata json (state s) body")
    case (Inl e)
    with assms Some hb show ?thesis
      by (simp add: onTextMessage_def Let_def offsetInv_def)
  next
    case (Inr md)
    from parseMetadata_offset [OF assms(1) Inr]
    have "offsetCompensation (state s) \<le> chunk_offset md" "0 \<le> chunk_duration md"
      by simp_all
    with assms Some hb Inr show ?thesis
      by (simp add: onTextMessage_def Let_def offsetInv_def)
  qed
qed

lemma state_onBinaryMessage [simp]: "state (onBinaryMessage s frame) = state s"
  by (simp add: onBinaryMessage_def Let_def split: prod.splits)

lemma onEvent_step:
  assumes "reportsNonNegative json" and "offsetInv (state s)"
  shows "offsetInv (state (onEvent json s e)) \<and>
         offsetCompensation (state s) \<le> offsetCompensation (state (onEvent json s e))"
  using assms by (cases e) (simp_all add: onTextMessage_step)


lemma sorted_chain_append:
  fixes f :: "'a \<Rightarrow> int"
  shows "sorted (map f (a # xs)) \<Longrightarrow> sorted (map f (last (a # xs) # ys)) \<Longrightarrow>
         sorted (map f (a # xs @ ys))"
proof (induction xs arbitrary: a)
  case Nil
  then show ?case by simp
next
  case (Cons x xs)
  from Cons.prems(1) have le: "f a \<le> f x" and tail: "sorted (map f (x # xs))"
    by (simp_all only: list.map sorted2)
  from Cons.prems(2) have "sorted (map f (last (x # xs) # ys))"
    by simp
  with tail have "sorted (map f (x # xs @ ys))"
    by (rule Cons.IH)
  with le have "sorted (f a # f x # map f (xs @ ys))"
    by (simp only: list.map sorted2 simp_thms)
  then show ?case
    by (simp only: list.map append_Cons)
qed

lemma sessionStates_sorted:
  assumes "reportsNonNegative json"
  shows "offsetInv (state s) \<Longrightarrow>
         sorted (map offsetCompensation (state s # sessionStates json s es)) \<and>
         offsetInv (last (state s # sessionStates json s es))"
proof (induction es arbitrary: s)
  case Nil
  then show ?case by simp
next
  case (Cons e es)
  let ?s' = "onEvent json s e"
  have unfolded: "sessionStates json s (e # es) = state ?s' # sessionStates json ?s' es"
    by (simp add: Let_def)
  from onEvent_step [OF assms Cons.prems]
  have inv': "offsetInv (state ?s')"
    and le: "offsetCompensation (state s) \<le> offsetCompensation (state ?s')"
    by simp_all
  from Cons.IH [OF inv']
  have tail: "sorted (map offsetCompensation (state ?s' # sessionStates json ?s' es))"
    and inv_last: "offsetInv (last (state ?s' # sessionStates json ?s' es))"
    by simp_all
  from le tail
  have "sorted (map offsetCompensation (state s # state ?s' # sessionStates json ?s' es))"
    by (simp only: list.map sorted2 simp_thms)
  moreover have "last (state s # state ?s' # sessionStates json ?s' es)
                   = last (state ?s' # sessionStates json ?s' es)"
    by simp
  ultimately show ?case
    using inv_last by (simp only: unfolded simp_thms)
qed

lemma sessionStates_last:
  "last (state s # sessionStates json s es) = state (foldl (onEvent json) s es)"
  by (induction es arbitrary: s) (simp_all add: Let_def)

lemma streamStates_sorted:
  assumes "reportsNonNegative json"
  shows "offsetInv st \<Longrightarrow>
         sorted (map offsetCompensation (st # streamStates json st sessions))"
proof (induction sessions arbitrary: st)
  case Nil
  then show ?case by simp
next
  case (Cons session sessions)
  obtain chunk events where session: "session = (chunk, events)"
    by (cases session)
  define st0 where "st0 = st\<lparr>partialText := chunk\<rparr>"
  define tr where "tr = sessionStates json (newSession st0) events"
  have unfolded: "streamStates json st (session # sessions)
                    = (st0 # tr) @ streamStates json (last (st0 # tr)) sessions"
    by (simp add: session Let_def st0_def tr_def)
  have st0: "state (newSession st0) = st0"
    by (simp add: newSession_def)
  have "offsetInv (state (newSession st0))"
    using Cons.prems by (simp add: newSession_def st0_def offsetInv_def)
  from sessionStates_sorted [OF assms this, of events]
  have sorted_visited: "sorted (map offsetCompensation (st0 # tr))"
    and inv_last: "offsetInv (last (st0 # tr))"
    by (simp_all only: st0 tr_def)
  have "offsetCompensation st \<le> offsetCompensation st0"
    by (simp add: st0_def)
  with sorted_visited have "sorted (map offsetCompensation (st # st0 # tr))"
    by (simp only: list.map sorted2 simp_thms)
  moreover have "sorted (map offsetCompensation
                   (last (st # st0 # tr) # streamStates json (last (st0 # tr)) sessions))"
    using Cons.IH [OF inv_last] by simp
  ultimately have "sorted (map offsetCompensation
                     (st # (st0 # tr) @ streamStates json (last (st0 # tr)) sessions))"
    by (rule sorted_chain_append)
  then show ?case
    by (simp only: unfolded)
qed

lemma turn_end_sets_offsetCompensation:
  "textPath frame = Some ''turn.end'' \<Longrightarrow>
     offsetCompensation (state (onTextMessage json s frame)) = lastDurationOffset (state s) + 8750000"
  by (auto simp: textPath_def onTextMessage_def Let_def split: option.splits prod.splits)

text \<open>
  C4 (on each \<^verbatim>\<open>turn.end\<close> the offset compensation becomes \<^verbatim>\<open>lastDurationOffset\<close> plus
  8,750,000, and, the service reporting no negative offset or duration, it never decreases
  within a stream). The states of a stream are those from the constructor's state on, over
  any sessions and any events.
\<close>

theorem offsetCompensation_monotone:
  "reportsNonNegative json \<Longrightarrow>
     sorted (map offsetCompensation (initialState # streamStates json initialState sessions)) \<and>
     (\<forall>s frame. textPath frame = Some ''turn.end'' \<longrightarrow>
        offsetCompensation (state (onTextMessage json s frame))
          = lastDurationOffset (state s) + 8750000)"
proof -
  assume nonneg: "reportsNonNegative json"
  have "offsetInv initialState"
    by (simp add: offsetInv_def initialState_def)
  with nonneg have "sorted (map offsetCompensation (initialState # streamStates json initialState sessions))"
    by (rule streamStates_sorted)
  then show ?thesis
    by (simp add: turn_end_sets_offsetCompensation)
qed


text \<open>
  One session: a word of 0.1 s at offset 0.1 s, then \<^verbatim>\<open>turn.end\<close>. The compensation goes
  from 0 to 1,500,000 + 8,750,000.
\<close>

lemma metadata_frame_facts:
  "textPath metadata_frame = Some ''audio.metadata''"
  "textBody metadata_frame = [CHR 0x0D, CHR 0x0A] @ ''{}''"
  by (simp_all add: metadata_frame_def textPath_def textBody_def getHeadersAndData_def
        addHeaderLine_def TextDecoder_decode_ascii)

theorem offsetCompensation_monotone_witness:
  "reportsNonNegative word_reader \<and>
   map offsetCompensation
     (initialState # streamStates word_reader initialState
        [(''Hi'', [TextMessage metadata_frame, TextMessage turn_end_frame])])
     = [0, 0, 0, 10250000] \<and>
   sorted (map offsetCompensation
     (initialState # streamStates word_reader initialState
        [(''Hi'', [TextMessage metadata_frame, TextMessage turn_end_frame])]))"
proof -
  have nonneg: "reportsNonNegative word_reader"
    by (simp add: reportsNonNegative_def word_reader_def)
  have run: "map offsetCompensation
     (initialState # streamStates word_reader initialState
        [(''Hi'', [TextMessage metadata_frame, TextMessage turn_end_frame])])
     = [0, 0, 0, 10250000]"
    by (simp add: initialState_def newSession_def onTextMessage_def getHeadersAndData_def
          addHeaderLine_def TextDecoder_decode_ascii parseMetadata_def resolvePromise_def Let_def
          word_reader_def metadata_frame_def turn_end_frame_def)
  from offsetCompensation_monotone [OF nonneg] nonneg run show ?thesis
    by blast
qed

lemma parseMetadataLoop_only_SessionEnd:
  "\<forall>m \<in> set ms. Type m = ''SessionEnd'' \<Longrightarrow> parseMetadataLoop st ms = Inl UnexpectedResponse"
  by (induction ms) simp_all

lemma parseMetadataLoop_unknown:
  "\<forall>m \<in> set pre. \<not> isBoundary m \<Longrightarrow> \<not> isBoundary u \<Longrightarrow> Type u \<noteq> ''SessionEnd'' \<Longrightarrow>
     parseMetadataLoop st (pre @ u # rest) = Inl UnknownResponse"
  by (induction pre) (simp_all add: isBoundary_def)

lemma onTextMessage_metadata_error:
  assumes "textPath frame = Some ''audio.metadata''"
    and "parseMetadata json (state s) (textBody frame) = Inl e"
    and "messagePromise s = Pending"
  shows "onTextMessage json s frame = s\<lparr>messagePromise := Rejected e\<rparr>"
  using assms
  by (auto simp: textPath_def textBody_def onTextMessage_def rejectPromise_def Let_def
      split: option.splits prod.splits)

text \<open>
  C10 (a \<^verbatim>\<open>Metadata\<close> list without a boundary record, empty or of \<^verbatim>\<open>SessionEnd\<close> records
  only, makes \<^verbatim>\<open>parseMetadata\<close> throw \<open>UnexpectedResponse\<close>; a record of another type met
  before the first boundary record makes it throw \<open>UnknownResponse\<close>). The handler does
  not swallow the error: it rejects the pending promise with it.
\<close>

theorem metadata_without_boundary_fails:
  "json body = Some ms \<Longrightarrow>
     ((\<forall>m \<in> set ms. Type m = ''SessionEnd'') \<longrightarrow>
        parseMetadata json st body = Inl UnexpectedResponse) \<and>
     (\<forall>pre u rest.
        ms = pre @ u # rest \<and> (\<forall>m \<in> set pre. \<not> isBoundary m) \<and> \<not> isBoundary u
          \<and> Type u \<noteq> ''SessionEnd'' \<longrightarrow>
        parseMetadata json st body = Inl UnknownResponse) \<and>
     (\<forall>s frame e.
        textPath frame = Some ''audio.metadata'' \<and> textBody frame = body
          \<and> parseMetadata json (state s) body = Inl e \<and> messagePromise s = Pending \<longrightarrow>
        onTextMessage json s frame = s\<lparr>messagePromise := Rejected e\<rparr>)"
  by (auto simp: parseMetadata_def parseMetadataLoop_only_SessionEnd parseMetadataLoop_unknown
      intro!: onTextMessage_metadata_error)

theorem metadata_without_boundary_fails_witness:
  "session_end_reader (textBody metadata_frame) =
     Some [\<lparr>Type = ''SessionEnd'', Offset = 0, Duration = 0, Text = []\<rparr>] \<and>
   parseMetadata session_end_reader initialState (textBody metadata_frame) = Inl UnexpectedResponse \<and>
   onTextMessage session_end_reader (newSession initialState) metadata_frame =
     (newSession initialState)\<lparr>messagePromise := Rejected UnexpectedResponse\<rparr> \<and>
   parseMetadata viseme_reader initialState (textBody metadata_frame) = Inl UnknownResponse"
proof -
  let ?end = "\<lparr>Type = ''SessionEnd'', Offset = 0, Duration = 0, Text = []\<rparr>"
  let ?viseme = "\<lparr>Type = ''Viseme'', Offset = 0, Duration = 0, Text = []\<rparr>"
  let ?word = "\<lparr>Type = ''WordBoundary'', Offset = 0, Duration = 0, Text = []\<rparr>"
  have r1: "session_end_reader (textBody metadata_frame) = Some [?end]"
    by (simp add: session_end_reader_def)
  have r2: "viseme_reader (textBody metadata_frame) = Some [?end, ?viseme, ?word]"
    by (simp add: viseme_reader_def)
  note t1 = metadata_without_boundary_fails
    [where json = session_end_reader and body = "textBody metadata_frame", OF r1]
  note t2 = metadata_without_boundary_fails
    [where json = viseme_reader and body = "textBody metadata_frame" and st = initialState,
     OF r2]
  have a: "parseMetadata session_end_reader initialState (textBody metadata_frame) = Inl UnexpectedResponse"
    using t1 [where st = initialState] by simp
  have b: "onTextMessage session_end_reader (newSession initialState) metadata_frame =
     (newSession initialState)\<lparr>messagePromise := Rejected UnexpectedResponse\<rparr>"
    using t1 [where st = initialState] a metadata_frame_facts(1)
    by (simp add: newSession_def)
  have "[?end, ?viseme, ?word] = [?end] @ ?viseme # [?word]"
    by simp
  moreover have "\<forall>m \<in> set [?end]. \<not> isBoundary m" "\<not> isBoundary ?viseme" "Type ?viseme \<noteq> ''SessionEnd''"
    by (simp_all add: isBoundary_def)
  ultimately have c: "parseMetadata viseme_reader initialState (textBody metadata_frame) = Inl UnknownResponse"
    using t2 by blast
  from r1 a b c show ?thesis
    by simp
qed















lemma turn_end_frame_facts: "textPath turn_end_frame = Some ''turn.end''"
  by (simp add: turn_end_frame_def textPath_def getHeadersAndData_def addHeaderLine_def
        TextDecoder_decode_ascii)

text \<open>
  A frame whose header block starts with a byte order mark: the decoder drops the mark, so
  the first header line is read under its own name.
\<close>

lemma byte_order_mark_frame:
  "textPath ([CHR 0xEF, CHR 0xBB, CHR 0xBF] @ turn_end_frame) = Some ''turn.end''"
  by (simp add: turn_end_frame_def textPath_def getHeadersAndData_def addHeaderLine_def
        TextDecoder_decode_byte_order_mark)





section \<open>Properties of the stream\<close>

lemma streamWasCalled_onTextMessage [simp]:
  "streamWasCalled (state (onTextMessage json s frame)) = streamWasCalled (state s)"
  by (simp add: onTextMessage_def Let_def split: option.splits prod.splits sum.splits)

lemma streamWasCalled_onEvent [simp]:
  "streamWasCalled (state (onEvent json s e)) = streamWasCalled (state s)"
  by (cases e) simp_all

lemma streamWasCalled_foldl_onEvent [simp]:
  "streamWasCalled (state (foldl (onEvent json) s es)) = streamWasCalled (state s)"
  by (induction es arbitrary: s) simp_all

lemma streamWasCalled_streamInternal:
  "streamInternal json st conn = (r, ys, st', acts) \<Longrightarrow> streamWasCalled st' = streamWasCalled st"
  by (auto simp: streamInternal_def Let_def newSession_def split: connection.splits promise.splits)

lemma streamWasCalled_streamLoop:
  "streamLoop json net k st texts = (r, ys, st', acts) \<Longrightarrow> streamWasCalled st' = streamWasCalled st"
proof (induction texts arbitrary: k st r ys st' acts)
  case Nil
  then show ?case by simp
next
  case (Cons chunk texts)
  obtain r1 ys1 st1 io1 where first:
    "streamInternal json (st\<lparr>partialText := chunk\<rparr>) (net k) = (r1, ys1, st1, io1)"
    by (metis prod_cases4)
  then have st1: "streamWasCalled st1 = streamWasCalled st"
    by (simp add: streamWasCalled_streamInternal)
  obtain r2 ys2 st2 io2 where second:
    "streamInternal json st1 (net (Suc k)) = (r2, ys2, st2, io2)"
    by (metis prod_cases4)
  then have st2: "streamWasCalled st2 = streamWasCalled st"
    using st1 by (simp add: streamWasCalled_streamInternal)
  obtain ra ysa sta ioa where loop1:
    "streamLoop json net (Suc k) st1 texts = (ra, ysa, sta, ioa)"
    by (metis prod_cases4)
  then have sta: "streamWasCalled sta = streamWasCalled st"
    using Cons.IH st1 by simp
  obtain rb ysb stb iob where loop2:
    "streamLoop json net (Suc (Suc k)) st2 texts = (rb, ysb, stb, iob)"
    by (metis prod_cases4)
  then have stb: "streamWasCalled stb = streamWasCalled st"
    using Cons.IH st2 by simp
  from Cons.prems show ?case
    by (simp add: first second loop1 loop2 split: outcome.splits error.splits if_splits)
       (use st1 st2 sta stb in auto)
qed

text \<open>
  C6 (a second call of \<^verbatim>\<open>stream\<close> on an instance fails with \<^verbatim>\<open>AlreadyStreamed\<close> before
  any network I/O). The body of the generator starts at its first \<^verbatim>\<open>next()\<close>; from then
  on the flag is set. Whatever the first run did and however it ended, a run on the state
  it leaves throws, yields nothing, changes nothing and opens no socket.
\<close>

theorem second_stream_fails:
  "(streamWasCalled st \<longrightarrow>
      stream json net st texts = (Throws StreamCalledTwice, [], st, [])) \<and>
   (\<forall>r ys st' acts.
      stream json net st texts = (r, ys, st', acts) \<longrightarrow>
      streamWasCalled st' \<and>
      (\<forall>json' net' texts'.
         stream json' net' st' texts' = (Throws StreamCalledTwice, [], st', [])))"
proof -
  have called: "streamWasCalled st'"
    if first: "stream json net st texts = (r, ys, st', acts)" for r ys st' acts
  proof (cases "streamWasCalled st")
    case True
    with first show ?thesis
      by (simp add: stream_def)
  next
    case False
    with first
    have "streamLoop json net 0 (st\<lparr>streamWasCalled := True\<rparr>) texts = (r, ys, st', acts)"
      by (simp add: stream_def)
    then show ?thesis
      by (simp add: streamWasCalled_streamLoop)
  qed
  have refused: "stream json' net' st' texts' = (Throws StreamCalledTwice, [], st', [])"
    if "streamWasCalled st'" for json' net' st' texts'
    using that by (simp add: stream_def)
  from called refused show ?thesis
    by blast
qed

text \<open>
  An instance for the text \<^verbatim>\<open>Test\<close> whose socket fails to open, as in the repository's
  test: the first run opens one socket and fails; the second run opens none.
\<close>

lemma refused_first_run:
  "stream session_end_reader refusing_net initialState [''Test''] =
     (Throws (WebSocketError ''WebSocket closed with code 1006''), [],
      initialState\<lparr>streamWasCalled := True, partialText := ''Test''\<rparr>, [OpenWebSocket])"
  by (simp add: stream_def streamInternal_def refusing_net_def initialState_def)

theorem second_stream_fails_witness:
  "stream session_end_reader refusing_net initialState [''Test''] =
     (Throws (WebSocketError ''WebSocket closed with code 1006''), [],
      initialState\<lparr>streamWasCalled := True, partialText := ''Test''\<rparr>, [OpenWebSocket]) \<and>
   stream session_end_reader refusing_net
     (initialState\<lparr>streamWasCalled := True, partialText := ''Test''\<rparr>) [] =
     (Throws StreamCalledTwice, [],
      initialState\<lparr>streamWasCalled := True, partialText := ''Test''\<rparr>, [])"
proof -
  let ?st' = "initialState\<lparr>streamWasCalled := True, partialText := ''Test''\<rparr>"
  from second_stream_fails [of initialState session_end_reader refusing_net "[''Test'']"]
    refused_first_run
  have "stream session_end_reader refusing_net ?st' [] = (Throws StreamCalledTwice, [], ?st', [])"
    by blast
  with refused_first_run show ?thesis
    by (rule conjI)
qed

section \<open>Properties of sorting and reindexing\<close>

lemma reindexLoop_Cons:
  "reindexLoop \<sigma> (r # rest) n sk inPlace skip =
     (if skip \<and> shouldSkipSub (\<sigma> r) \<noteq> None
      then reindexLoop \<sigma> rest (n + 1) (sk + 1) inPlace skip
      else ((r, (\<sigma> r)\<lparr>index := Some (n - sk)\<rparr>)
              # fst (reindexLoop (\<sigma>(r := (\<sigma> r)\<lparr>index := Some (n - sk)\<rparr>)) rest (n + 1) sk inPlace skip),
            snd (reindexLoop (\<sigma>(r := (\<sigma> r)\<lparr>index := Some (n - sk)\<rparr>)) rest (n + 1) sk inPlace skip)))"
proof -
  have copy: "\<sigma>(r := (\<sigma> r)\<lparr>index := index (\<sigma> r), start := start (\<sigma> r),
                 end_ms := end_ms (\<sigma> r), content := content (\<sigma> r)\<rparr>) = \<sigma>"
    by (simp add: fun_eq_iff)
  show ?thesis
    by (cases inPlace) (auto simp: Let_def copy)
qed

lemma reindexLoop_skip:
  assumes "skip \<and> shouldSkipSub (\<sigma> r) \<noteq> None"
  shows "reindexLoop \<sigma> (r # rest) n sk inPlace skip
           = reindexLoop \<sigma> rest (n + 1) (sk + 1) inPlace skip"
  by (simp only: reindexLoop_Cons assms simp_thms if_True)

lemma reindexLoop_keep:
  assumes "\<not> (skip \<and> shouldSkipSub (\<sigma> r) \<noteq> None)"
  shows "reindexLoop \<sigma> (r # rest) n sk inPlace skip =
     ((r, (\<sigma> r)\<lparr>index := Some (n - sk)\<rparr>)
        # fst (reindexLoop (\<sigma>(r := (\<sigma> r)\<lparr>index := Some (n - sk)\<rparr>)) rest (n + 1) sk inPlace skip),
      snd (reindexLoop (\<sigma>(r := (\<sigma> r)\<lparr>index := Some (n - sk)\<rparr>)) rest (n + 1) sk inPlace skip))"
  by (simp only: reindexLoop_Cons assms simp_thms if_False)

lemmas [simp del] = reindexLoop.simps(2)

lemma reindexLoop_inPlace:
  "reindexLoop \<sigma> rs n sk inPlace skip = reindexLoop \<sigma> rs n sk inPlace' skip"
proof (induction rs arbitrary: \<sigma> n sk)
  case Nil
  show ?case by simp
next
  case (Cons a rs)
  show ?case
    by (simp only: reindexLoop_Cons [of _ _ _ _ _ inPlace] reindexLoop_Cons [of _ _ _ _ _ inPlace']
          Cons.IH)
qed

lemma reindexLoop_refs:
  "fst ` set (fst (reindexLoop \<sigma> rs n sk inPlace skip)) \<subseteq> set rs"
proof (induction rs arbitrary: \<sigma> n sk)
  case Nil
  show ?case by simp
next
  case (Cons a rs)
  show ?case
  proof (cases "skip \<and> shouldSkipSub (\<sigma> a) \<noteq> None")
    case True
    note step = reindexLoop_skip [where \<sigma> = \<sigma> and r = a, OF True]
    have "fst ` set (fst (reindexLoop \<sigma> rs (n + 1) (sk + 1) inPlace skip)) \<subseteq> set rs"
      by (rule Cons.IH)
    then show ?thesis
      unfolding step by auto
  next
    case False
    note step = reindexLoop_keep [where \<sigma> = \<sigma> and r = a, OF False]
    let ?\<sigma>2 = "\<sigma>(a := (\<sigma> a)\<lparr>index := Some (n - sk)\<rparr>)"
    have "fst ` set (fst (reindexLoop ?\<sigma>2 rs (n + 1) sk inPlace skip)) \<subseteq> set rs"
      by (rule Cons.IH)
    then show ?thesis
      unfolding step by auto
  qed
qed

lemma sameStartEndContent_index_update: "sameStartEndContent ((\<sigma>(a := (\<sigma> a)\<lparr>index := i\<rparr>)) r) (\<sigma> r)"
  by (simp add: sameStartEndContent_def)

lemma sameStartEndContent_trans: "sameStartEndContent x y \<Longrightarrow> sameStartEndContent y z \<Longrightarrow> sameStartEndContent x z"
  by (simp add: sameStartEndContent_def)

lemma reindexLoop_store_frame:
  "sameStartEndContent (snd (reindexLoop \<sigma> rs n sk inPlace skip) r) (\<sigma> r)"
proof (induction rs arbitrary: \<sigma> n sk)
  case Nil
  show ?case by (simp add: sameStartEndContent_def)
next
  case (Cons a rs)
  show ?case
  proof (cases "skip \<and> shouldSkipSub (\<sigma> a) \<noteq> None")
    case True
    note step = reindexLoop_skip [where \<sigma> = \<sigma> and r = a, OF True]
    show ?thesis
      unfolding step by (rule Cons.IH)
  next
    case False
    note step = reindexLoop_keep [where \<sigma> = \<sigma> and r = a, OF False]
    let ?\<sigma>2 = "\<sigma>(a := (\<sigma> a)\<lparr>index := Some (n - sk)\<rparr>)"
    have "sameStartEndContent (snd (reindexLoop ?\<sigma>2 rs (n + 1) sk inPlace skip) r) (?\<sigma>2 r)"
      by (rule Cons.IH)
    then have "sameStartEndContent (snd (reindexLoop ?\<sigma>2 rs (n + 1) sk inPlace skip) r) (\<sigma> r)"
      using sameStartEndContent_index_update by (rule sameStartEndContent_trans)
    then show ?thesis
      unfolding step by simp
  qed
qed

lemma reindexLoop_yield_frame:
  "(r, sub) \<in> set (fst (reindexLoop \<sigma> rs n sk inPlace skip)) \<Longrightarrow> sameStartEndContent sub (\<sigma> r)"
proof (induction rs arbitrary: \<sigma> n sk)
  case Nil
  then show ?case by simp
next
  case (Cons a rs)
  show ?case
  proof (cases "skip \<and> shouldSkipSub (\<sigma> a) \<noteq> None")
    case True
    note step = reindexLoop_skip [where \<sigma> = \<sigma> and r = a, OF True]
    from Cons.prems [unfolded step] show ?thesis
      by (rule Cons.IH)
  next
    case False
    note step = reindexLoop_keep [where \<sigma> = \<sigma> and r = a, OF False]
    let ?\<sigma>2 = "\<sigma>(a := (\<sigma> a)\<lparr>index := Some (n - sk)\<rparr>)"
    from Cons.prems [unfolded step]
    consider "r = a" "sub = (\<sigma> a)\<lparr>index := Some (n - sk)\<rparr>"
      | "(r, sub) \<in> set (fst (reindexLoop ?\<sigma>2 rs (n + 1) sk inPlace skip))"
      by auto
    then show ?thesis
    proof cases
      case 1
      then show ?thesis by (simp add: sameStartEndContent_def)
    next
      case 2
      then have "sameStartEndContent sub (?\<sigma>2 r)"
        by (rule Cons.IH)
      then show ?thesis
        using sameStartEndContent_index_update by (rule sameStartEndContent_trans)
    qed
  qed
qed

lemma reindexLoop_untouched:
  "r \<notin> fst ` set (fst (reindexLoop \<sigma> rs n sk inPlace skip)) \<Longrightarrow>
     snd (reindexLoop \<sigma> rs n sk inPlace skip) r = \<sigma> r"
proof (induction rs arbitrary: \<sigma> n sk)
  case Nil
  show ?case by simp
next
  case (Cons a rs)
  show ?case
  proof (cases "skip \<and> shouldSkipSub (\<sigma> a) \<noteq> None")
    case True
    note step = reindexLoop_skip [where \<sigma> = \<sigma> and r = a, OF True]
    from Cons.prems [unfolded step] show ?thesis
      unfolding step by (rule Cons.IH)
  next
    case False
    note step = reindexLoop_keep [where \<sigma> = \<sigma> and r = a, OF False]
    let ?\<sigma>2 = "\<sigma>(a := (\<sigma> a)\<lparr>index := Some (n - sk)\<rparr>)"
    from Cons.prems [unfolded step] have "r \<noteq> a"
      and "r \<notin> fst ` set (fst (reindexLoop ?\<sigma>2 rs (n + 1) sk inPlace skip))"
      by auto
    from this(2) have "snd (reindexLoop ?\<sigma>2 rs (n + 1) sk inPlace skip) r = ?\<sigma>2 r"
      by (rule Cons.IH)
    with \<open>r \<noteq> a\<close> show ?thesis
      unfolding step by simp
  qed
qed

lemma reindexLoop_indexes:
  "k < length (fst (reindexLoop \<sigma> rs n sk inPlace skip)) \<Longrightarrow>
     index (snd (fst (reindexLoop \<sigma> rs n sk inPlace skip) ! k)) = Some (n - sk + int k)"
proof (induction rs arbitrary: \<sigma> n sk k)
  case Nil
  then show ?case by simp
next
  case (Cons a rs)
  show ?case
  proof (cases "skip \<and> shouldSkipSub (\<sigma> a) \<noteq> None")
    case True
    note step = reindexLoop_skip [where \<sigma> = \<sigma> and r = a, OF True]
    from Cons.prems [unfolded step]
    have "index (snd (fst (reindexLoop \<sigma> rs (n + 1) (sk + 1) inPlace skip) ! k))
            = Some (n + 1 - (sk + 1) + int k)"
      by (rule Cons.IH)
    then show ?thesis
      unfolding step by simp
  next
    case False
    note step = reindexLoop_keep [where \<sigma> = \<sigma> and r = a, OF False]
    let ?\<sigma>2 = "\<sigma>(a := (\<sigma> a)\<lparr>index := Some (n - sk)\<rparr>)"
    show ?thesis
    proof (cases k)
      case 0
      then show ?thesis
        unfolding step by simp
    next
      case (Suc j)
      with Cons.prems [unfolded step]
      have "j < length (fst (reindexLoop ?\<sigma>2 rs (n + 1) sk inPlace skip))"
        by simp
      then have "index (snd (fst (reindexLoop ?\<sigma>2 rs (n + 1) sk inPlace skip) ! j))
                   = Some (n + 1 - sk + int j)"
        by (rule Cons.IH)
      with Suc show ?thesis
        unfolding step by simp
    qed
  qed
qed

lemma reindexLoop_written:
  "distinct rs \<Longrightarrow> (r, sub) \<in> set (fst (reindexLoop \<sigma> rs n sk inPlace skip)) \<Longrightarrow>
     snd (reindexLoop \<sigma> rs n sk inPlace skip) r = sub"
proof (induction rs arbitrary: \<sigma> n sk)
  case Nil
  then show ?case by simp
next
  case (Cons a rs)
  from Cons.prems(1) have a: "a \<notin> set rs" and rs: "distinct rs"
    by simp_all
  show ?case
  proof (cases "skip \<and> shouldSkipSub (\<sigma> a) \<noteq> None")
    case True
    note step = reindexLoop_skip [where \<sigma> = \<sigma> and r = a, OF True]
    from rs Cons.prems(2) [unfolded step] show ?thesis
      unfolding step by (rule Cons.IH)
  next
    case False
    note step = reindexLoop_keep [where \<sigma> = \<sigma> and r = a, OF False]
    let ?\<sigma>2 = "\<sigma>(a := (\<sigma> a)\<lparr>index := Some (n - sk)\<rparr>)"
    let ?later = "reindexLoop ?\<sigma>2 rs (n + 1) sk inPlace skip"
    from Cons.prems(2) [unfolded step]
    consider "r = a" "sub = (\<sigma> a)\<lparr>index := Some (n - sk)\<rparr>" | "(r, sub) \<in> set (fst ?later)"
      by auto
    then show ?thesis
    proof cases
      case 1
      have "a \<notin> fst ` set (fst ?later)"
        using a reindexLoop_refs [of ?\<sigma>2 rs "n + 1" sk inPlace skip] by blast
      then have "snd ?later a = ?\<sigma>2 a"
        by (rule reindexLoop_untouched)
      with 1 show ?thesis
        unfolding step by simp
    next
      case 2
      with rs have "snd ?later r = sub"
        by (rule Cons.IH)
      then show ?thesis
        unfolding step by simp
    qed
  qed
qed


lemma set_insertSorted [simp]: "set (insertSorted cmp x ys) = insert x (set ys)"
  by (induction ys) auto

lemma distinct_insertSorted [simp]:
  "distinct (insertSorted cmp x ys) = (x \<notin> set ys \<and> distinct ys)"
  by (induction ys) auto

lemma set_foldl_insertSorted:
  "set (foldl (\<lambda>acc x. insertSorted cmp x acc) acc xs) = set acc \<union> set xs"
  by (induction xs arbitrary: acc) auto

lemma distinct_foldl_insertSorted:
  "distinct (foldl (\<lambda>acc x. insertSorted cmp x acc) acc xs)
     = (distinct acc \<and> distinct xs \<and> set acc \<inter> set xs = {})"
  by (induction xs arbitrary: acc) auto

lemma set_Array_sort [simp]: "set (Array_sort cmp xs) = set xs"
  by (simp add: Array_sort_def set_foldl_insertSorted)

lemma distinct_Array_sort [simp]: "distinct (Array_sort cmp xs) = distinct xs"
  by (simp add: Array_sort_def distinct_foldl_insertSorted)

text \<open>
  C9 (every cue \<^verbatim>\<open>sortAndReindex\<close> yields keeps the start, end and content of its input
  cue; only the index is rewritten, and it is rewritten in the input object itself, also
  when \<^verbatim>\<open>inPlace\<close> is false). Every yield is an input object, its fields but the index are
  those of the input, the store changes in nothing but the indexes of yielded objects, the
  \<open>k\<close>-th yield has index \<open>startIndex + k\<close>, the store holds what was yielded (for inputs
  without repetition), and \<^verbatim>\<open>inPlace\<close> makes no difference.
\<close>

theorem sortAndReindex_rewrites_index_only:
  "sortAndReindex \<sigma> subtitles startIndex inPlace skip = (yields, \<sigma>') \<Longrightarrow>
     (\<forall>y \<in> set yields. fst y \<in> set subtitles \<and> sameStartEndContent (snd y) (\<sigma> (fst y))) \<and>
     (\<forall>r. sameStartEndContent (\<sigma>' r) (\<sigma> r)) \<and>
     (\<forall>r. r \<notin> fst ` set yields \<longrightarrow> \<sigma>' r = \<sigma> r) \<and>
     (\<forall>k < length yields. index (snd (yields ! k)) = Some (startIndex + int k)) \<and>
     (distinct subtitles \<longrightarrow> (\<forall>y \<in> set yields. \<sigma>' (fst y) = snd y)) \<and>
     sortAndReindex \<sigma> subtitles startIndex (\<not> inPlace) skip = (yields, \<sigma>')"
proof -
  assume run: "sortAndReindex \<sigma> subtitles startIndex inPlace skip = (yields, \<sigma>')"
  define sorted_refs where "sorted_refs = Array_sort (\<lambda>a b. compareTo (\<sigma> a) (\<sigma> b)) subtitles"
  from run have loop: "reindexLoop \<sigma> sorted_refs startIndex 0 inPlace skip = (yields, \<sigma>')"
    by (simp add: sortAndReindex_def sorted_refs_def)
  then have yields: "yields = fst (reindexLoop \<sigma> sorted_refs startIndex 0 inPlace skip)"
    and store: "\<sigma>' = snd (reindexLoop \<sigma> sorted_refs startIndex 0 inPlace skip)"
    by simp_all
  have refs: "fst y \<in> set subtitles" if "y \<in> set yields" for y
    using that reindexLoop_refs [of \<sigma> sorted_refs startIndex 0 inPlace skip]
    by (auto simp: yields sorted_refs_def)
  have kept: "sameStartEndContent (snd y) (\<sigma> (fst y))" if "y \<in> set yields" for y
    using that reindexLoop_yield_frame [of "fst y" "snd y" \<sigma> sorted_refs startIndex 0 inPlace skip]
    by (simp add: yields)
  have frame: "sameStartEndContent (\<sigma>' r) (\<sigma> r)" for r
    unfolding store by (rule reindexLoop_store_frame)
  have untouched: "\<sigma>' r = \<sigma> r" if "r \<notin> fst ` set yields" for r
    using that unfolding store yields by (rule reindexLoop_untouched)
  have indexes: "index (snd (yields ! k)) = Some (startIndex + int k)" if "k < length yields" for k
    using that reindexLoop_indexes [of k \<sigma> sorted_refs startIndex 0 inPlace skip]
    by (simp add: yields)
  have written: "\<sigma>' (fst y) = snd y" if "distinct subtitles" "y \<in> set yields" for y
  proof -
    have "distinct sorted_refs"
      using that(1) by (simp add: sorted_refs_def)
    moreover have "(fst y, snd y) \<in> set (fst (reindexLoop \<sigma> sorted_refs startIndex 0 inPlace skip))"
      using that(2) by (simp add: yields)
    ultimately show ?thesis
      unfolding store by (rule reindexLoop_written)
  qed
  have other: "sortAndReindex \<sigma> subtitles startIndex (\<not> inPlace) skip = (yields, \<sigma>')"
    using loop reindexLoop_inPlace [of \<sigma> sorted_refs startIndex 0 "\<not> inPlace" skip inPlace]
    by (simp add: sortAndReindex_def sorted_refs_def)
  from refs kept frame untouched indexes written other show ?thesis
    by blast
qed

lemma example_run:
  "fst (sortAndReindex example_store [0, 1] 1 False True) =
     [(1, \<lparr>index = Some 1, start = 1000, end_ms = 2000, content = ''First''\<rparr>),
      (0, \<lparr>index = Some 2, start = 2000, end_ms = 3000, content = ''Second''\<rparr>)]"
  by (simp add: sortAndReindex_def Array_sort_def compareTo_def example_store_def
        reindexLoop.simps(2) Let_def shouldSkipSub_def js_trim_def isJsSpace_def)

theorem sortAndReindex_rewrites_index_only_witness:
  "fst (sortAndReindex example_store [0, 1] 1 False True) =
     [(1, \<lparr>index = Some 1, start = 1000, end_ms = 2000, content = ''First''\<rparr>),
      (0, \<lparr>index = Some 2, start = 2000, end_ms = 3000, content = ''Second''\<rparr>)] \<and>
   index (example_store 0) = Some 5 \<and>
   snd (sortAndReindex example_store [0, 1] 1 False True) 0 =
     \<lparr>index = Some 2, start = 2000, end_ms = 3000, content = ''Second''\<rparr> \<and>
   sortAndReindex example_store [0, 1] 1 True True =
     sortAndReindex example_store [0, 1] 1 False True"
proof -
  let ?run = "sortAndReindex example_store [0, 1] 1 False True"
  have pair: "?run = (fst ?run, snd ?run)"
    by simp
  note facts = sortAndReindex_rewrites_index_only [OF pair]
  have "distinct [0 :: nat, 1]"
    by simp
  with facts have "\<forall>y \<in> set (fst ?run). snd ?run (fst y) = snd y"
    by blast
  then have written: "snd ?run 0 = \<lparr>index = Some 2, start = 2000, end_ms = 3000, content = ''Second''\<rparr>"
    unfolding example_run by simp
  from facts have "sortAndReindex example_store [0, 1] 1 (\<not> False) True = ?run"
    by simp
  then have same: "sortAndReindex example_store [0, 1] 1 True True = ?run"
    by simp
  from example_run written same show ?thesis
    by (simp add: example_store_def)
qed


section \<open>Properties of double rounding\<close>

lemma roundTiesToEven_of_int [simp]: "roundTiesToEven (of_int n) = n"
  by (simp add: roundTiesToEven_def)

lemma powr_2_int: "(2::real) powr real_of_int k = 2 powi k"
  by (simp add: powr_real_of_int')

lemma floor_log2_bounds:
  assumes "x \<noteq> 0"
  shows "2 powi \<lfloor>log 2 \<bar>x\<bar>\<rfloor> \<le> \<bar>x\<bar>" "\<bar>x\<bar> < 2 powi (\<lfloor>log 2 \<bar>x\<bar>\<rfloor> + 1)"
proof -
  have "0 < \<bar>x\<bar>"
    using assms by simp
  from floor_log_eq_powr_iff [OF this, of 2 "\<lfloor>log 2 \<bar>x\<bar>\<rfloor>", unfolded powr_2_int]
  show "2 powi \<lfloor>log 2 \<bar>x\<bar>\<rfloor> \<le> \<bar>x\<bar>" "\<bar>x\<bar> < 2 powi (\<lfloor>log 2 \<bar>x\<bar>\<rfloor> + 1)"
    by simp_all
qed

lemma floor_log2_eq:
  assumes "2 powi e \<le> \<bar>x\<bar>" "\<bar>x\<bar> < 2 powi (e + 1)"
  shows "\<lfloor>log 2 \<bar>x\<bar>\<rfloor> = e"
proof -
  have "(0::real) < 2 powi e"
    by simp
  with assms(1) have "0 < \<bar>x\<bar>"
    by linarith
  from floor_log_eq_powr_iff [OF this, of 2 e, unfolded powr_2_int] assms show ?thesis
    by simp
qed

text \<open>
  A number with a significand of at most 53 bits is a double: rounding leaves it as it
  is. So it does every whole number below \<open>2\<^sup>5\<^sup>3\<close> in size.
\<close>

lemma roundToDouble_exact:
  assumes "\<bar>m\<bar> < 2 ^ 53"
  shows "roundToDouble (of_int m * 2 powi j) = of_int m * 2 powi j"
proof (cases "m = 0")
  case True
  then show ?thesis
    by (simp add: roundToDouble_def)
next
  case False
  define x :: real where "x = of_int m * 2 powi j"
  define e where "e = \<lfloor>log 2 \<bar>x\<bar>\<rfloor>"
  have x0: "x \<noteq> 0"
    using False by (simp add: x_def)
  have "\<bar>x\<bar> = of_int \<bar>m\<bar> * 2 powi j"
    by (simp add: x_def abs_mult)
  also have "\<dots> < 2 ^ 53 * 2 powi j"
  proof -
    have "real_of_int \<bar>m\<bar> < 2 ^ 53"
      using assms by (metis of_int_less_iff of_int_numeral of_int_power)
    then show ?thesis
      by simp
  qed
  also have "\<dots> = 2 powi (53 + j)"
    by (simp add: power_int_add)
  finally have upper: "\<bar>x\<bar> < 2 powi (53 + j)" .
  from floor_log2_bounds(1) [OF x0] have "2 powi e \<le> \<bar>x\<bar>"
    by (simp add: e_def)
  with upper have "(2::real) powi e < 2 powi (53 + j)"
    by linarith
  then have "e < 53 + j"
    using power_int_increasing [of "53 + j" e "2::real"] by (cases "e < 53 + j") simp_all
  then have d: "0 \<le> j - (e - 52)"
    by simp
  define N where "N = m * 2 ^ nat (j - (e - 52))"
  have "x / 2 powi (e - 52) = of_int m * 2 powi (j - (e - 52))"
    by (simp add: x_def power_int_diff)
  also have "\<dots> = of_int N"
    using d by (simp add: N_def power_int_def)
  finally have q: "x / 2 powi (e - 52) = of_int N" .
  then have "of_int N * 2 powi (e - 52) = x"
    by (simp add: field_simps)
  with q x0 show ?thesis
    by (simp add: roundToDouble_def Let_def e_def [symmetric] x_def [symmetric])
qed

lemma roundToDouble_int: "\<bar>m\<bar> < 2 ^ 53 \<Longrightarrow> roundToDouble (of_int m) = of_int m"
  using roundToDouble_exact [of m 0] by simp

lemma roundToDouble_numeral:
  "(numeral n :: int) < 2 ^ 53 \<Longrightarrow> roundToDouble (numeral n) = numeral n"
  "(numeral n :: int) < 2 ^ 53 \<Longrightarrow> roundToDouble (- numeral n) = - numeral n"
  using roundToDouble_int [of "numeral n"] roundToDouble_int [of "- numeral n"] by simp_all

lemma roundToDouble_0_1 [simp]: "roundToDouble 0 = 0" "roundToDouble 1 = 1"
  using roundToDouble_int [of 1] by (simp_all add: roundToDouble_def)

text \<open>Rounding a number from 1 up to \<open>2\<^sup>5\<^sup>3\<close>, when its exponent \<open>e\<close> is known.\<close>

lemma roundToDouble_normal:
  assumes "2 ^ e \<le> x" "x < 2 ^ Suc e" "e \<le> 52"
  shows "roundToDouble x = of_int (roundTiesToEven (x * 2 ^ (52 - e))) / 2 ^ (52 - e)"
proof -
  have pos: "0 < x"
    using assms(1) by (smt (verit) zero_less_power)
  have "\<lfloor>log 2 \<bar>x\<bar>\<rfloor> = int e"
    using assms(1,2) pos by (intro floor_log2_eq) (simp_all add: power_int_add)
  moreover have "(2::real) powi (int e - 52) = 1 / 2 ^ (52 - e)"
    using assms(3) by (simp add: power_int_def nat_diff_distrib' field_simps)
  ultimately show ?thesis
    using pos by (simp add: roundToDouble_def Let_def)
qed

section \<open>Properties of the token\<close>

lemma digits_of_nat_inj: "digits_of_nat m = digits_of_nat n \<Longrightarrow> m = n"
  by (metis decimal_value_digits)

lemma ticks1_windowsSeconds:
  "roundToDouble (getUnixTimestamp now skew + WIN_EPOCH) = windowsSeconds now skew"
  by (simp add: getUnixTimestamp_def WIN_EPOCH_def windowsSeconds_def)

lemma rounded_down: "0 \<le> t \<Longrightarrow> t - js_remainder t 300 = 300 * of_int (bucket300 t)"
  by (simp add: js_remainder_def bucket300_def)

text \<open>
  From the Windows epoch on, the hashed text is a function of the bucket of the time
  since the Windows epoch.
\<close>

lemma strToHash_nonneg:
  assumes "0 \<le> windowsSeconds now skew"
  shows "strToHash now skew =
    Number_toString
      \<lfloor>roundToDouble (roundToDouble (300 * of_int (bucket300 (windowsSeconds now skew)))
         * roundToDouble (S_TO_NS / 100))\<rfloor> @ TRUSTED_CLIENT_TOKEN"
  unfolding strToHash_def Let_def ticks1_windowsSeconds rounded_down [OF assms] ..

text \<open>Below \<open>2\<^sup>3\<^sup>8\<close> seconds the three roundings that follow are exact.\<close>

lemma strToHash_bucket:
  assumes "0 \<le> windowsSeconds now skew" and "windowsSeconds now skew < 2 ^ 38"
  shows "strToHash now skew =
           Number_toString (3000000000 * bucket300 (windowsSeconds now skew))
             @ TRUSTED_CLIENT_TOKEN"
proof -
  define k where "k = bucket300 (windowsSeconds now skew)"
  have k0: "0 \<le> k"
    using assms(1) by (simp add: k_def bucket300_def)
  have "windowsSeconds now skew / 300 < 916259690"
    using assms(2) by simp
  then have k1: "k < 916259690"
    unfolding k_def bucket300_def by linarith
  have r2: "roundToDouble (300 * of_int k) = of_int (300 * k)"
    using roundToDouble_int [of "300 * k"] k0 k1 by simp
  have r7: "roundToDouble (S_TO_NS / 100) = 10000000"
    by (simp add: S_TO_NS_def roundToDouble_numeral)
  have "of_int (300 * k) * (10000000 :: real) = of_int (k * 5859375) * 2 powi 9"
    by simp
  moreover have "roundToDouble (of_int (k * 5859375) * 2 powi 9) = of_int (k * 5859375) * 2 powi 9"
    using k0 k1 by (intro roundToDouble_exact) simp
  ultimately have r3: "roundToDouble (of_int (300 * k) * 10000000) = of_int (3000000000 * k)"
    by simp
  show ?thesis
    unfolding strToHash_nonneg [OF assms(1)] k_def [symmetric] r2 r7 r3 floor_of_int ..
qed

lemma strToHash_differs:
  assumes "0 \<le> windowsSeconds now1 skew" "windowsSeconds now1 skew < 2 ^ 38"
    and "0 \<le> windowsSeconds now2 skew" "windowsSeconds now2 skew < 2 ^ 38"
    and "bucket300 (windowsSeconds now1 skew) \<noteq> bucket300 (windowsSeconds now2 skew)"
  shows "strToHash now1 skew \<noteq> strToHash now2 skew"
proof
  let ?k1 = "bucket300 (windowsSeconds now1 skew)" and ?k2 = "bucket300 (windowsSeconds now2 skew)"
  have k: "0 \<le> ?k1" "0 \<le> ?k2"
    using assms(1,3) by (simp_all add: bucket300_def)
  assume "strToHash now1 skew = strToHash now2 skew"
  then have "Number_toString (3000000000 * ?k1) = Number_toString (3000000000 * ?k2)"
    unfolding strToHash_bucket [OF assms(1,2)] strToHash_bucket [OF assms(3,4)] by simp
  then have "digits_of_nat (nat (3000000000 * ?k1)) = digits_of_nat (nat (3000000000 * ?k2))"
    using k by (simp add: Number_toString_def)
  then have "nat (3000000000 * ?k1) = nat (3000000000 * ?k2)"
    by (rule digits_of_nat_inj)
  with k have "?k1 = ?k2"
    by simp
  with assms(5) show False
    by simp
qed

lemma upper_hex_digit:
  "d < 16 \<Longrightarrow> of_char (upper_char (hex_digit d)) = hex_upper d"
  by (simp add: upper_char_def hex_digit_def hex_upper_def)

lemma hex_upper_inj: "hex_upper d = hex_upper e \<Longrightarrow> d < 16 \<Longrightarrow> e < 16 \<Longrightarrow> d = e"
  by (auto simp: hex_upper_def split: if_splits)

lemma upper_hex_digit_inj:
  assumes "upper_char (hex_digit d) = upper_char (hex_digit e)" "d < 16" "e < 16"
  shows "d = e"
proof -
  have "hex_upper d = hex_upper e"
    using assms by (metis upper_hex_digit)
  then show ?thesis
    using assms(2,3) by (rule hex_upper_inj)
qed

lemma upper_byte_hex_inj:
  assumes "toUpperCase (byte_hex a) = toUpperCase (byte_hex b)"
  shows "a = b"
proof -
  let ?a = "of_char a :: nat" and ?b = "of_char b :: nat"
  have bounds: "?a div 16 < 16" "?a mod 16 < 16" "?b div 16 < 16" "?b mod 16 < 16"
    by (simp_all add: less_mult_imp_div_less)
  from assms have "upper_char (hex_digit (?a div 16)) = upper_char (hex_digit (?b div 16))"
    and "upper_char (hex_digit (?a mod 16)) = upper_char (hex_digit (?b mod 16))"
    by (simp_all add: toUpperCase_def byte_hex_def)
  then have "?a div 16 = ?b div 16" "?a mod 16 = ?b mod 16"
    using bounds by (auto dest: upper_hex_digit_inj)
  then have "?a = ?b"
    by (metis div_mult_mod_eq)
  then show ?thesis
    by simp
qed

lemma toUpperCase_concat:
  "toUpperCase (concat (map byte_hex bs)) = concat (map (\<lambda>b. toUpperCase (byte_hex b)) bs)"
  by (induction bs) (simp_all add: toUpperCase_def)

lemma hex_text_inj:
  "concat (map (\<lambda>b. toUpperCase (byte_hex b)) xs) = concat (map (\<lambda>b. toUpperCase (byte_hex b)) ys)
     \<Longrightarrow> xs = ys"
proof (induction xs arbitrary: ys)
  case Nil
  then show ?case
    by (cases ys) (simp_all add: toUpperCase_def byte_hex_def)
next
  case (Cons x xs)
  then obtain y ys' where ys: "ys = y # ys'"
    by (cases ys) (simp_all add: toUpperCase_def byte_hex_def)
  have len: "length (toUpperCase (byte_hex x)) = length (toUpperCase (byte_hex y))"
    by (simp add: toUpperCase_def byte_hex_def)
  from Cons.prems ys
  have "toUpperCase (byte_hex x) @ concat (map (\<lambda>b. toUpperCase (byte_hex b)) xs)
        = toUpperCase (byte_hex y) @ concat (map (\<lambda>b. toUpperCase (byte_hex b)) ys')"
    by simp
  with len have "toUpperCase (byte_hex x) = toUpperCase (byte_hex y)"
    and "concat (map (\<lambda>b. toUpperCase (byte_hex b)) xs)
         = concat (map (\<lambda>b. toUpperCase (byte_hex b)) ys')"
    by simp_all
  then show ?case
    using Cons.IH ys by (simp add: upper_byte_hex_inj)
qed

lemma token_inj:
  "generateSecMsGec sha256 now1 skew1 = generateSecMsGec sha256 now2 skew2 \<Longrightarrow>
     sha256 (strToHash now1 skew1) = sha256 (strToHash now2 skew2)"
  by (simp add: generateSecMsGec_def toUpperCase_concat hex_text_inj)

lemma token_length: "length (generateSecMsGec sha256 now skew) = 2 * length (sha256 (strToHash now skew))"
proof -
  have "length (concat (map byte_hex bs)) = 2 * length bs" for bs
    by (induction bs) (simp_all add: byte_hex_def)
  then show ?thesis
    by (simp add: generateSecMsGec_def toUpperCase_def)
qed

lemma upper_hex_digit_isUpperHex: "d < 16 \<Longrightarrow> isUpperHex (upper_char (hex_digit d))"
  by (simp add: isUpperHex_def upper_hex_digit hex_upper_def)

lemma token_chars: "c \<in> set (generateSecMsGec sha256 now skew) \<Longrightarrow> isUpperHex c"
proof -
  have "\<forall>c \<in> set (toUpperCase (byte_hex b)). isUpperHex c" for b
    by (simp add: toUpperCase_def byte_hex_def upper_hex_digit_isUpperHex less_mult_imp_div_less)
  then show "c \<in> set (generateSecMsGec sha256 now skew) \<Longrightarrow> isUpperHex c"
    by (auto simp: generateSecMsGec_def toUpperCase_concat)
qed



text \<open>
  C5, as the code has it: for a fixed skew, two invocations whose times since the Windows
  epoch, the sums the machine computes, are not negative and fall in the same 300-second
  bucket hash the same text and return the same token, 64 upper-case hexadecimal
  characters when the digest has 32 bytes. Below \<open>2\<^sup>3\<^sup>8\<close> seconds the text is the decimal
  number of the bucket's start in units of 100 ns, followed by the client token; there
  invocations in different buckets hash different texts. The token is the digest in
  hexadecimal, one to one: tokens differ whenever the digests do.
\<close>

theorem token_deterministic:
  "0 \<le> windowsSeconds now1 skew \<Longrightarrow> 0 \<le> windowsSeconds now2 skew \<Longrightarrow>
     (bucket300 (windowsSeconds now1 skew) = bucket300 (windowsSeconds now2 skew) \<longrightarrow>
        strToHash now1 skew = strToHash now2 skew \<and>
        generateSecMsGec sha256 now1 skew = generateSecMsGec sha256 now2 skew) \<and>
     (windowsSeconds now1 skew < 2 ^ 38 \<longrightarrow>
        strToHash now1 skew =
          Number_toString (3000000000 * bucket300 (windowsSeconds now1 skew))
            @ TRUSTED_CLIENT_TOKEN) \<and>
     (windowsSeconds now1 skew < 2 ^ 38 \<and> windowsSeconds now2 skew < 2 ^ 38 \<and>
      bucket300 (windowsSeconds now1 skew) \<noteq> bucket300 (windowsSeconds now2 skew) \<longrightarrow>
        strToHash now1 skew \<noteq> strToHash now2 skew) \<and>
     (sha256 (strToHash now1 skew) \<noteq> sha256 (strToHash now2 skew) \<longrightarrow>
        generateSecMsGec sha256 now1 skew \<noteq> generateSecMsGec sha256 now2 skew) \<and>
     (length (sha256 (strToHash now1 skew)) = 32 \<longrightarrow>
        length (generateSecMsGec sha256 now1 skew) = 64) \<and>
     (\<forall>c \<in> set (generateSecMsGec sha256 now1 skew). isUpperHex c)"
proof -
  assume t1: "0 \<le> windowsSeconds now1 skew" and t2: "0 \<le> windowsSeconds now2 skew"
  have same: "strToHash now1 skew = strToHash now2 skew"
    if "bucket300 (windowsSeconds now1 skew) = bucket300 (windowsSeconds now2 skew)"
    using that by (simp add: strToHash_nonneg t1 t2)
  then have same_token: "generateSecMsGec sha256 now1 skew = generateSecMsGec sha256 now2 skew"
    if "bucket300 (windowsSeconds now1 skew) = bucket300 (windowsSeconds now2 skew)"
    using that by (simp add: generateSecMsGec_def)
  have shape: "strToHash now1 skew =
          Number_toString (3000000000 * bucket300 (windowsSeconds now1 skew))
            @ TRUSTED_CLIENT_TOKEN"
    if "windowsSeconds now1 skew < 2 ^ 38"
    using t1 that by (rule strToHash_bucket)
  have other: "strToHash now1 skew \<noteq> strToHash now2 skew"
    if "windowsSeconds now1 skew < 2 ^ 38" "windowsSeconds now2 skew < 2 ^ 38"
      "bucket300 (windowsSeconds now1 skew) \<noteq> bucket300 (windowsSeconds now2 skew)"
    using t1 that(1) t2 that(2,3) by (rule strToHash_differs)
  have differ: "generateSecMsGec sha256 now1 skew \<noteq> generateSecMsGec sha256 now2 skew"
    if "sha256 (strToHash now1 skew) \<noteq> sha256 (strToHash now2 skew)"
    using that token_inj by blast
  have len: "length (generateSecMsGec sha256 now1 skew) = 64"
    if "length (sha256 (strToHash now1 skew)) = 32"
    using that by (simp add: token_length)
  from same same_token shape other differ len token_chars show ?thesis
    by blast
qed

text \<open>
  Times of November 2025 with no skew: the first two lie in one bucket, the third in the
  next.
\<close>

lemmas double_eval = roundToDouble_normal [where e = 30] roundToDouble_normal [where e = 33]
  roundToDouble_numeral roundTiesToEven_def Let_def

lemma windowsSeconds_examples:
  "windowsSeconds 1762000000123 0 = 7028853230861287 / 524288"
  "windowsSeconds 1762000100000 0 = 13406473700"
  "windowsSeconds 1762000400000 0 = 13406474000"
  by (simp_all add: windowsSeconds_def double_eval)

lemma bucket_examples:
  "bucket300 (windowsSeconds 1762000000123 0) = 44688245"
  "bucket300 (windowsSeconds 1762000100000 0) = 44688245"
  "bucket300 (windowsSeconds 1762000400000 0) = 44688246"
  by (simp_all add: windowsSeconds_examples bucket300_def)

lemma after_windows_epoch:
  "0 \<le> windowsSeconds 1762000000123 0" "windowsSeconds 1762000000123 0 < 2 ^ 38"
  "0 \<le> windowsSeconds 1762000100000 0" "windowsSeconds 1762000100000 0 < 2 ^ 38"
  "0 \<le> windowsSeconds 1762000400000 0" "windowsSeconds 1762000400000 0 < 2 ^ 38"
  by (simp_all add: windowsSeconds_examples)

lemmas digits_eval = Number_toString_def digits_ge_10 digits_lt_10 digit_char_def char_of_eq_iff

lemma strToHash_examples:
  "strToHash 1762000000123 0 = ''134064735000000000'' @ TRUSTED_CLIENT_TOKEN"
  "strToHash 1762000400000 0 = ''134064738000000000'' @ TRUSTED_CLIENT_TOKEN"
  by (simp_all add: strToHash_bucket [OF after_windows_epoch(1,2)]
        strToHash_bucket [OF after_windows_epoch(5,6)] bucket_examples digits_eval)

theorem token_deterministic_witness:
  "0 \<le> windowsSeconds 1762000000123 0 \<and>
   0 \<le> windowsSeconds 1762000100000 0 \<and>
   0 \<le> windowsSeconds 1762000400000 0 \<and>
   bucket300 (windowsSeconds 1762000000123 0) = bucket300 (windowsSeconds 1762000100000 0) \<and>
   generateSecMsGec first32 1762000000123 0 = generateSecMsGec first32 1762000100000 0 \<and>
   windowsSeconds 1762000000123 0 < 2 ^ 38 \<and>
   strToHash 1762000000123 0 = ''134064735000000000'' @ TRUSTED_CLIENT_TOKEN \<and>
   windowsSeconds 1762000400000 0 < 2 ^ 38 \<and>
   bucket300 (windowsSeconds 1762000000123 0) \<noteq> bucket300 (windowsSeconds 1762000400000 0) \<and>
   strToHash 1762000000123 0 \<noteq> strToHash 1762000400000 0 \<and>
   generateSecMsGec first32 1762000000123 0 \<noteq> generateSecMsGec first32 1762000400000 0 \<and>
   length (generateSecMsGec first32 1762000000123 0) = 64"
proof -
  note same = token_deterministic [OF after_windows_epoch(1) after_windows_epoch(3), of first32]
  note other = token_deterministic [OF after_windows_epoch(1) after_windows_epoch(5), of first32]
  have b12: "bucket300 (windowsSeconds 1762000000123 0) = bucket300 (windowsSeconds 1762000100000 0)"
    by (simp only: bucket_examples)
  have b13: "bucket300 (windowsSeconds 1762000000123 0) \<noteq> bucket300 (windowsSeconds 1762000400000 0)"
    by (simp only: bucket_examples)
  have digests: "first32 (strToHash 1762000000123 0) \<noteq> first32 (strToHash 1762000400000 0)"
    by (simp add: strToHash_examples first32_def)
  have len: "length (first32 (strToHash 1762000000123 0)) = 32"
    by (simp add: first32_def)
  from same b12 have "generateSecMsGec first32 1762000000123 0 = generateSecMsGec first32 1762000100000 0"
    by blast
  moreover from other after_windows_epoch(2)
  have "strToHash 1762000000123 0 =
          Number_toString (3000000000 * bucket300 (windowsSeconds 1762000000123 0))
            @ TRUSTED_CLIENT_TOKEN"
    by blast
  then have "strToHash 1762000000123 0 = ''134064735000000000'' @ TRUSTED_CLIENT_TOKEN"
    by (simp add: bucket_examples digits_eval)
  moreover from other b13 after_windows_epoch(2,6)
  have "strToHash 1762000000123 0 \<noteq> strToHash 1762000400000 0"
    by blast
  moreover from other digests
  have "generateSecMsGec first32 1762000000123 0 \<noteq> generateSecMsGec first32 1762000400000 0"
    by blast
  moreover from other len have "length (generateSecMsGec first32 1762000000123 0) = 64"
    by blast
  ultimately show ?thesis
    using after_windows_epoch b12 b13 by blast
qed

text \<open>
  Three invocations with the skew 4193 / 4194304 s, at the clock values 1762000199000,
  1762000199999 and 1762000200000: the timestamps, and the sums with the Windows epoch as
  they are rounded.
\<close>

lemma getUnixTimestamp_examples:
  "getUnixTimestamp 1762000199000 (4193 / 4194304) = 7390364482670689 / 4194304"
  "getUnixTimestamp 1762000199999 (4193 / 4194304) = 7390364486860799 / 4194304"
  "getUnixTimestamp 1762000200000 (4193 / 4194304) = 7390364486864993 / 4194304"
  by (simp_all add: getUnixTimestamp_def double_eval)

lemma windowsSeconds_rounded:
  "windowsSeconds 1762000199000 (4193 / 4194304) = 1757213333782659 / 131072"
  "windowsSeconds 1762000199999 (4193 / 4194304) = 13406473800"
  "windowsSeconds 1762000200000 (4193 / 4194304) = 1757213333913731 / 131072"
  by (simp_all add: windowsSeconds_def double_eval)

lemma windowsSeconds_rounded_bounds:
  "0 \<le> windowsSeconds 1762000199000 (4193 / 4194304)"
  "windowsSeconds 1762000199000 (4193 / 4194304) < 2 ^ 38"
  "0 \<le> windowsSeconds 1762000199999 (4193 / 4194304)"
  "windowsSeconds 1762000199999 (4193 / 4194304) < 2 ^ 38"
  "0 \<le> windowsSeconds 1762000200000 (4193 / 4194304)"
  "windowsSeconds 1762000200000 (4193 / 4194304) < 2 ^ 38"
  by (simp_all add: windowsSeconds_rounded)

lemma strToHash_rounded:
  "strToHash 1762000199000 (4193 / 4194304) = ''134064735000000000'' @ TRUSTED_CLIENT_TOKEN"
  "strToHash 1762000199999 (4193 / 4194304) = ''134064738000000000'' @ TRUSTED_CLIENT_TOKEN"
  "strToHash 1762000200000 (4193 / 4194304) = ''134064738000000000'' @ TRUSTED_CLIENT_TOKEN"
  by (simp_all add: strToHash_bucket [OF windowsSeconds_rounded_bounds(1,2)]
        strToHash_bucket [OF windowsSeconds_rounded_bounds(3,4)]
        strToHash_bucket [OF windowsSeconds_rounded_bounds(5,6)]
        windowsSeconds_rounded bucket300_def digits_eval)

text \<open>
  C5 as the specification words it takes the bucket of the skew-corrected timestamp, and
  so fails. With the skew 4193 / 4194304 s the timestamps 1762000199.0009997 and
  1762000199.9999998 lie in one bucket, which ends at 1762000200. Adding the Windows epoch
  to the second gives 13406473799.9999998, which is no double: the sum is rounded to
  13406473800, the start of the next bucket. So two invocations of one bucket hash
  different texts and return different tokens, and two invocations of different buckets
  hash the same text.
\<close>

theorem token_differs_within_bucket:
  "bucket300 (skewCorrected 1762000199000 (4193 / 4194304)) = 5873333 \<and>
   bucket300 (skewCorrected 1762000199999 (4193 / 4194304)) = 5873333 \<and>
   bucket300 (skewCorrected 1762000200000 (4193 / 4194304)) = 5873334 \<and>
   bucket300 (getUnixTimestamp 1762000199000 (4193 / 4194304)) = 5873333 \<and>
   bucket300 (getUnixTimestamp 1762000199999 (4193 / 4194304)) = 5873333 \<and>
   bucket300 (getUnixTimestamp 1762000200000 (4193 / 4194304)) = 5873334 \<and>
   strToHash 1762000199000 (4193 / 4194304) = ''134064735000000000'' @ TRUSTED_CLIENT_TOKEN \<and>
   strToHash 1762000199999 (4193 / 4194304) = ''134064738000000000'' @ TRUSTED_CLIENT_TOKEN \<and>
   strToHash 1762000200000 (4193 / 4194304) = ''134064738000000000'' @ TRUSTED_CLIENT_TOKEN \<and>
   generateSecMsGec first32 1762000199000 (4193 / 4194304)
     \<noteq> generateSecMsGec first32 1762000199999 (4193 / 4194304)"
proof -
  have "first32 (strToHash 1762000199000 (4193 / 4194304))
          \<noteq> first32 (strToHash 1762000199999 (4193 / 4194304))"
    by (simp add: strToHash_rounded first32_def)
  then have "generateSecMsGec first32 1762000199000 (4193 / 4194304)
     \<noteq> generateSecMsGec first32 1762000199999 (4193 / 4194304)"
    using token_inj by blast
  then show ?thesis
    by (simp add: strToHash_rounded getUnixTimestamp_examples skewCorrected_def bucket300_def)
qed

text \<open>
  Before the Windows epoch the remainder is negative and the code rounds towards zero:
  two times of one bucket are hashed as different texts.
\<close>

lemma floor_minus_one_real: "\<lfloor>- 1 :: real\<rfloor> = - 1"
  using floor_of_int [of "- 1", where ?'a = real] by simp

lemma strToHash_before_windows_epoch:
  "windowsSeconds 0 (- 11644473900) = - 300 \<and>
   windowsSeconds 1000 (- 11644473900) = - 299 \<and>
   bucket300 (- 300) = bucket300 (- 299) \<and>
   strToHash 0 (- 11644473900) = ''-3000000000'' @ TRUSTED_CLIENT_TOKEN \<and>
   strToHash 1000 (- 11644473900) = ''0'' @ TRUSTED_CLIENT_TOKEN"
  by (simp add: windowsSeconds_def bucket300_def strToHash_def getUnixTimestamp_def
        WIN_EPOCH_def S_TO_NS_def js_remainder_def roundToDouble_numeral digits_eval
        floor_minus_one_real)

end
